theory Spec2Isabelle
  imports Complex_Main "HOL-Library.Char_ord" "HOL-Library.List_Lexorder"
    "HOL-Library.Product_Lexorder" "HOL-Library.Multiset"
begin

section \<open>Strings and the character classes of the standard library\<close>

text \<open>
  A Python \<open>str\<close> is modelled as a \<open>string\<close> whose characters are the code points
  below 256 (Latin-1); \<open>length\<close> counts code points, as \<open>len\<close> does.  The three
  classifications the program relies on are those of CPython on this range:
  the lower-casing used by \<open>re.IGNORECASE\<close>, the word characters of \<open>\w\<close> and
  \<open>\b\<close>, and the white space removed by \<open>str.strip()\<close>.
\<close>

definition py_lower :: "char \<Rightarrow> char" where
  "py_lower c =
     (let n = (of_char c :: nat)
      in if (65 \<le> n \<and> n \<le> 90) \<or> (192 \<le> n \<and> n \<le> 222 \<and> n \<noteq> 215)
         then char_of (n + 32) else c)"

definition is_word :: "char \<Rightarrow> bool" where
  "is_word c =
     (let n = (of_char c :: nat)
      in (48 \<le> n \<and> n \<le> 57) \<or> (65 \<le> n \<and> n \<le> 90) \<or> n = 95 \<or> (97 \<le> n \<and> n \<le> 122)
         \<or> n = 170 \<or> n = 178 \<or> n = 179 \<or> n = 181 \<or> n = 185 \<or> n = 186
         \<or> (188 \<le> n \<and> n \<le> 190) \<or> (192 \<le> n \<and> n \<le> 214)
         \<or> (216 \<le> n \<and> n \<le> 246) \<or> (248 \<le> n \<and> n \<le> 255))"

definition is_space :: "char \<Rightarrow> bool" where
  "is_space c =
     (let n = (of_char c :: nat)
      in (9 \<le> n \<and> n \<le> 13) \<or> (28 \<le> n \<and> n \<le> 32) \<or> n = 133 \<or> n = 160)"

text \<open>\<open>str.strip()\<close>: white space is removed from both ends.\<close>

definition py_strip :: "string \<Rightarrow> string" where
  "py_strip s = rev (dropWhile is_space (rev (dropWhile is_space s)))"

text \<open>\<open>sep.join(xs)\<close>.\<close>

fun join :: "string \<Rightarrow> string list \<Rightarrow> string" where
  "join sep [] = []"
| "join sep [x] = x"
| "join sep (x # y # ys) = x @ sep @ join sep (y # ys)"

section \<open>The regular expressions of \<open>SET_DESC\<close>\<close>

subsection \<open>\<open>re.search(re.escape(part), values, flags=re.IGNORECASE)\<close>\<close>

text \<open>
  The escaped pattern is the literal \<open>part\<close>.  \<open>match_literal part text\<close> says that
  the literal matches at the start of \<open>text\<close>, character by character up to case;
  \<open>re_search\<close> tries the start positions from left to right and returns
  \<open>group(0)\<close>, the slice of the text that matched.
\<close>

fun match_literal :: "string \<Rightarrow> string \<Rightarrow> bool" where
  "match_literal [] t = True"
| "match_literal (p # ps) [] = False"
| "match_literal (p # ps) (c # cs) = (py_lower c = py_lower p \<and> match_literal ps cs)"

fun re_search :: "string \<Rightarrow> string \<Rightarrow> string option" where
  "re_search part [] = (if match_literal part [] then Some [] else None)"
| "re_search part (c # cs) =
     (if match_literal part (c # cs) then Some (take (length part) (c # cs))
      else re_search part cs)"

subsection \<open>\<open>re.findall(r'\b\w*' + re.escape(part) + r'\w*\b', values, flags=re.IGNORECASE)\<close>\<close>

text \<open>
  A position of the text is given by the character before it (\<open>None\<close> at the start
  of the text) and the text from it onwards.  \<open>\b\<close> holds where exactly one of the two
  neighbouring characters is a word character.
\<close>

definition word_opt :: "char option \<Rightarrow> bool" where
  "word_opt c = (case c of None \<Rightarrow> False | Some x \<Rightarrow> is_word x)"

definition head_opt :: "string \<Rightarrow> char option" where
  "head_opt s = (case s of [] \<Rightarrow> None | c # _ \<Rightarrow> Some c)"

definition at_boundary :: "char option \<Rightarrow> string \<Rightarrow> bool" where
  "at_boundary prev rest = (word_opt (head_opt rest) \<noteq> word_opt prev)"

text \<open>The character before offset \<open>e\<close> of \<open>rest\<close>.\<close>

definition prev_at :: "char option \<Rightarrow> string \<Rightarrow> nat \<Rightarrow> char option" where
  "prev_at prev rest e = (if e = 0 then prev else Some (rest ! (e - 1)))"

text \<open>The counts a greedy repetition tries: \<open>n, n-1, \<dots>, 0\<close>.\<close>

definition down_from :: "nat \<Rightarrow> nat list" where
  "down_from n = rev [0..<Suc n]"

fun first_some :: "('a \<Rightarrow> 'b option) \<Rightarrow> 'a list \<Rightarrow> 'b option" where
  "first_some f [] = None"
| "first_some f (x # xs) = (case f x of Some y \<Rightarrow> Some y | None \<Rightarrow> first_some f xs)"

text \<open>
  One attempt of the backtracking matcher at a fixed start position.  The first
  \<open>\w*\<close> is greedy: it takes all \<open>w\<close> word characters and gives them back one at a
  time (\<open>k = w, w-1, \<dots>, 0\<close>) until the rest of the pattern matches; the second
  \<open>\w*\<close> does the same (\<open>m = v, \<dots>, 0\<close>) before the closing \<open>\b\<close>.  With
  \<open>adv\<close> (the engine's \<open>must_advance\<close>) an empty match is refused.  The result is
  the length of the match.
\<close>

definition match_tail :: "string \<Rightarrow> char option \<Rightarrow> string \<Rightarrow> bool \<Rightarrow> nat \<Rightarrow> nat option" where
  "match_tail part prev rest adv k =
     (if match_literal part (drop k rest)
      then (let q = k + length part;
                v = length (takeWhile is_word (drop q rest))
            in first_some
                 (\<lambda>m. if at_boundary (prev_at prev rest (q + m)) (drop (q + m) rest)
                          \<and> (adv \<longrightarrow> 0 < q + m)
                       then Some (q + m) else None)
                 (down_from v))
      else None)"

definition match_here :: "string \<Rightarrow> char option \<Rightarrow> string \<Rightarrow> bool \<Rightarrow> nat option" where
  "match_here part prev rest adv =
     (if at_boundary prev rest
      then first_some (match_tail part prev rest adv)
             (down_from (length (takeWhile is_word rest)))
      else None)"

lemma first_some_SomeD: "first_some f xs = Some y \<Longrightarrow> \<exists>x\<in>set xs. f x = Some y"
  by (induction xs) (auto split: option.splits)

lemma set_down_from: "set (down_from n) = {0..n}"
  by (auto simp: down_from_def)

lemma match_literal_length: "match_literal part t \<Longrightarrow> length part \<le> length t"
  by (induction part t rule: match_literal.induct) auto

lemma match_tail_bounds:
  assumes "match_tail part prev rest adv k = Some e" and "k \<le> length rest"
  shows "e \<le> length rest \<and> (adv \<longrightarrow> 0 < e) \<and> k + length part \<le> e"
proof -
  from assms(1) have lit: "match_literal part (drop k rest)"
    by (auto simp: match_tail_def split: if_splits)
  from match_literal_length [OF lit] assms(2) have q: "k + length part \<le> length rest"
    by simp
  from assms(1) lit obtain m where
    m: "m \<in> set (down_from (length (takeWhile is_word (drop (k + length part) rest))))"
    and e: "(if at_boundary (prev_at prev rest (k + length part + m)) (drop (k + length part + m) rest)
                \<and> (adv \<longrightarrow> 0 < k + length part + m)
             then Some (k + length part + m) else None) = Some e"
    by (auto simp: match_tail_def Let_def dest!: first_some_SomeD)
  from m have "m \<le> length (takeWhile is_word (drop (k + length part) rest))"
    by (simp add: set_down_from)
  also have "\<dots> \<le> length (drop (k + length part) rest)"
    by (rule length_takeWhile_le)
  finally have "k + length part + m \<le> length rest"
    using q by simp
  with e show ?thesis
    by (auto split: if_splits)
qed

lemma match_here_bounds:
  assumes "match_here part prev rest adv = Some e"
  shows "e \<le> length rest \<and> (adv \<longrightarrow> 0 < e)"
proof -
  from assms obtain k where
    k: "k \<in> set (down_from (length (takeWhile is_word rest)))"
    and t: "match_tail part prev rest adv k = Some e"
    by (auto simp: match_here_def split: if_splits dest!: first_some_SomeD)
  from k have "k \<le> length (takeWhile is_word rest)"
    by (simp add: set_down_from)
  also have "\<dots> \<le> length rest"
    by (rule length_takeWhile_le)
  finally show ?thesis
    using match_tail_bounds [OF t] by blast
qed

text \<open>
  The scan of \<open>findall\<close>.  After a match the search resumes where the match ended;
  after an empty match it resumes at the same position and must advance.  Where
  no match starts, the search moves one character on, free to match the empty
  string again.
\<close>

function findall_from :: "string \<Rightarrow> char option \<Rightarrow> string \<Rightarrow> bool \<Rightarrow> string list" where
  "findall_from part prev rest adv =
     (case match_here part prev rest adv of
        Some e \<Rightarrow>
          take e rest #
            (if e = 0 then findall_from part prev rest True
             else findall_from part (Some (rest ! (e - 1))) (drop e rest) False)
      | None \<Rightarrow>
          (case rest of
             [] \<Rightarrow> []
           | c # cs \<Rightarrow> findall_from part (Some c) cs False))"
  by pat_completeness auto
termination
  by (relation "measure (\<lambda>(part, prev, rest, adv). 2 * length rest + (if adv then 0 else 1))")
    (auto split: if_splits dest!: match_here_bounds)

declare findall_from.simps [simp del]

definition re_findall :: "string \<Rightarrow> string \<Rightarrow> string list" where
  "re_findall part values = findall_from part None values False"

subsection \<open>\<open>re.split('[ \n]', values)\<close>\<close>

text \<open>
  The text is cut at every single space and line feed; two separators in a row
  give an empty token, and the empty text gives one empty token.
\<close>

definition is_sep :: "char \<Rightarrow> bool" where
  "is_sep c = (c = CHR '' '' \<or> c = CHR 0x0A)"

fun re_split :: "string \<Rightarrow> string list" where
  "re_split [] = [[]]"
| "re_split (c # cs) =
     (if is_sep c then [] # re_split cs
      else (case re_split cs of
              [] \<Rightarrow> [[c]]
            | t # ts \<Rightarrow> (c # t) # ts))"

section \<open>\<open>difflib.get_close_matches\<close>\<close>

text \<open>
  \<open>get_close_matches(word, possibilities, n=1, cutoff=0.65)\<close> builds one
  \<open>SequenceMatcher\<close> whose second sequence \<open>b\<close> is the word and whose first
  sequence \<open>a\<close> is each possibility in turn.  No junk function is given, so the
  junk set is empty; \<open>autojunk\<close> keeps its default and removes the popular
  characters of a long \<open>b\<close> from the index \<open>b2j\<close>.
\<close>

subsection \<open>\<open>__chain_b\<close>\<close>

definition chain_b :: "string \<Rightarrow> (char \<rightharpoonup> nat list)" where
  "chain_b b =
     (let b2j = fold (\<lambda>(i, elt) m. m(elt \<mapsto> (case m elt of None \<Rightarrow> [] | Some idxs \<Rightarrow> idxs) @ [i]))
                  (enumerate 0 b) Map.empty;
          n = length b
      in if 200 \<le> n
         then (let ntest = n div 100 + 1
               in (\<lambda>elt. case b2j elt of
                            None \<Rightarrow> None
                          | Some idxs \<Rightarrow> if ntest < length idxs then None else Some idxs))
         else b2j)"

definition isbjunk :: "char \<Rightarrow> bool" where
  "isbjunk c = (c \<in> {})"

subsection \<open>\<open>find_longest_match\<close>\<close>

text \<open>
  The inner loop runs through the positions \<open>j\<close> of \<open>a[i]\<close> in \<open>b\<close>; \<open>j2len\<close> holds
  the lengths of the matches ending at \<open>a[i-1]\<close>, \<open>newj2len\<close> those ending at
  \<open>a[i]\<close>.  Python's \<open>j2len.get(j-1, 0)\<close> finds nothing at \<open>j = 0\<close>.
\<close>

fun flm_inner ::
  "(nat \<rightharpoonup> nat) \<Rightarrow> nat \<Rightarrow> nat \<Rightarrow> nat \<Rightarrow> nat list \<Rightarrow>
   (nat \<rightharpoonup> nat) \<times> nat \<times> nat \<times> nat \<Rightarrow> (nat \<rightharpoonup> nat) \<times> nat \<times> nat \<times> nat" where
  "flm_inner j2len i blo bhi [] st = st"
| "flm_inner j2len i blo bhi (j # js) (newj2len, besti, bestj, bestsize) =
     (if j < blo then flm_inner j2len i blo bhi js (newj2len, besti, bestj, bestsize)
      else if bhi \<le> j then (newj2len, besti, bestj, bestsize)
      else (let k = (if j = 0 then 0 else (case j2len (j - 1) of None \<Rightarrow> 0 | Some v \<Rightarrow> v)) + 1
            in if bestsize < k
               then flm_inner j2len i blo bhi js (newj2len(j \<mapsto> k), i + 1 - k, j + 1 - k, k)
               else flm_inner j2len i blo bhi js (newj2len(j \<mapsto> k), besti, bestj, bestsize)))"

fun flm_outer ::
  "string \<Rightarrow> (char \<rightharpoonup> nat list) \<Rightarrow> nat \<Rightarrow> nat \<Rightarrow> nat list \<Rightarrow>
   (nat \<rightharpoonup> nat) \<times> nat \<times> nat \<times> nat \<Rightarrow> nat \<times> nat \<times> nat" where
  "flm_outer a b2j blo bhi [] (j2len, best) = best"
| "flm_outer a b2j blo bhi (i # is) (j2len, best) =
     flm_outer a b2j blo bhi is
       (flm_inner j2len i blo bhi (case b2j (a ! i) of None \<Rightarrow> [] | Some js \<Rightarrow> js)
          (Map.empty, best))"

text \<open>The four \<open>while\<close> loops that extend the best match, to the left and to the right.\<close>

function extend_left ::
  "string \<Rightarrow> string \<Rightarrow> (char \<Rightarrow> bool) \<Rightarrow> nat \<Rightarrow> nat \<Rightarrow> nat \<times> nat \<times> nat \<Rightarrow> nat \<times> nat \<times> nat" where
  "extend_left a b ok alo blo (besti, bestj, bestsize) =
     (if alo < besti \<and> blo < bestj \<and> ok (b ! (bestj - 1)) \<and> a ! (besti - 1) = b ! (bestj - 1)
      then extend_left a b ok alo blo (besti - 1, bestj - 1, bestsize + 1)
      else (besti, bestj, bestsize))"
  by pat_completeness auto
termination
  by (relation "measure (\<lambda>(a, b, ok, alo, blo, besti, bestj, bestsize). besti)") auto

declare extend_left.simps [simp del]

function extend_right ::
  "string \<Rightarrow> string \<Rightarrow> (char \<Rightarrow> bool) \<Rightarrow> nat \<Rightarrow> nat \<Rightarrow> nat \<times> nat \<times> nat \<Rightarrow> nat \<times> nat \<times> nat" where
  "extend_right a b ok ahi bhi (besti, bestj, bestsize) =
     (if besti + bestsize < ahi \<and> bestj + bestsize < bhi \<and> ok (b ! (bestj + bestsize))
         \<and> a ! (besti + bestsize) = b ! (bestj + bestsize)
      then extend_right a b ok ahi bhi (besti, bestj, bestsize + 1)
      else (besti, bestj, bestsize))"
  by pat_completeness auto
termination
  by (relation "measure (\<lambda>(a, b, ok, ahi, bhi, besti, bestj, bestsize). ahi - (besti + bestsize))")
    auto

declare extend_right.simps [simp del]

definition find_longest_match :: "string \<Rightarrow> string \<Rightarrow> nat \<Rightarrow> nat \<Rightarrow> nat \<Rightarrow> nat \<Rightarrow> nat \<times> nat \<times> nat" where
  "find_longest_match a b alo ahi blo bhi =
     extend_right a b isbjunk ahi bhi
       (extend_left a b isbjunk alo blo
          (extend_right a b (\<lambda>c. \<not> isbjunk c) ahi bhi
             (extend_left a b (\<lambda>c. \<not> isbjunk c) alo blo
                (flm_outer a (chain_b b) blo bhi [alo..<ahi] (Map.empty, alo, blo, 0)))))"

text \<open>
  What \<open>find_longest_match\<close> returns is a block of equal elements inside the two
  windows (or the empty block at \<open>(alo, blo)\<close>).  This is the docstring's
  postcondition; the recursion of \<open>get_matching_blocks\<close> terminates because of it.
\<close>

definition b2j_sound :: "string \<Rightarrow> (char \<rightharpoonup> nat list) \<Rightarrow> bool" where
  "b2j_sound b b2j = (\<forall>c js. b2j c = Some js \<longrightarrow> (\<forall>j\<in>set js. j < length b \<and> b ! j = c))"

lemma b2j_fold_sound:
  assumes "\<forall>c js. m c = Some js \<longrightarrow> (\<forall>j\<in>set js. j < length pre \<and> (pre @ xs) ! j = c)"
  shows "b2j_sound (pre @ xs)
           (fold (\<lambda>(i, elt) m. m(elt \<mapsto> (case m elt of None \<Rightarrow> [] | Some idxs \<Rightarrow> idxs) @ [i]))
              (enumerate (length pre) xs) m)"
  using assms
proof (induction xs arbitrary: m pre)
  case Nil
  then show ?case by (auto simp: b2j_sound_def)
next
  case (Cons x xs)
  let ?m = "m(x \<mapsto> (case m x of None \<Rightarrow> [] | Some idxs \<Rightarrow> idxs) @ [length pre])"
  have "\<forall>c js. ?m c = Some js \<longrightarrow>
          (\<forall>j\<in>set js. j < length (pre @ [x]) \<and> ((pre @ [x]) @ xs) ! j = c)"
  proof (intro allI impI ballI)
    fix c js j
    assume a: "?m c = Some js" "j \<in> set js"
    show "j < length (pre @ [x]) \<and> ((pre @ [x]) @ xs) ! j = c"
    proof (cases "c = x")
      case True
      then have js: "js = (case m x of None \<Rightarrow> [] | Some idxs \<Rightarrow> idxs) @ [length pre]"
        using a by simp
      show ?thesis
      proof (cases "j = length pre")
        case True
        with \<open>c = x\<close> show ?thesis by (simp add: nth_append)
      next
        case False
        with js a(2) obtain idxs where "m x = Some idxs" "j \<in> set idxs"
          by (auto split: option.splits)
        with Cons.prems have "j < length pre \<and> (pre @ x # xs) ! j = x" by blast
        then show ?thesis using True by simp
      qed
    next
      case False
      with a have "m c = Some js" by simp
      with Cons.prems a(2) have "j < length pre \<and> (pre @ x # xs) ! j = c" by blast
      then show ?thesis by simp
    qed
  qed
  from Cons.IH [OF this] show ?case by simp
qed

lemma chain_b_sound: "b2j_sound b (chain_b b)"
proof -
  have "b2j_sound ([] @ b)
          (fold (\<lambda>(i, elt) m. m(elt \<mapsto> (case m elt of None \<Rightarrow> [] | Some idxs \<Rightarrow> idxs) @ [i]))
             (enumerate (length ([] :: string)) b) Map.empty)"
    by (rule b2j_fold_sound) simp
  then show ?thesis
    by (auto simp: chain_b_def b2j_sound_def Let_def split: option.splits if_splits)
qed


definition valid_match :: "string \<Rightarrow> string \<Rightarrow> nat \<Rightarrow> nat \<Rightarrow> nat \<Rightarrow> nat \<Rightarrow> nat \<times> nat \<times> nat \<Rightarrow> bool" where
  "valid_match a b alo ahi blo bhi m =
     (case m of (i, j, k) \<Rightarrow>
        alo \<le> i \<and> blo \<le> j
        \<and> (if k = 0 then i = alo \<and> j = blo else i + k \<le> ahi \<and> j + k \<le> bhi)
        \<and> (\<forall>t<k. a ! (i + t) = b ! (j + t)))"

definition j2len_inv :: "string \<Rightarrow> string \<Rightarrow> nat \<Rightarrow> nat \<Rightarrow> nat \<Rightarrow> nat \<Rightarrow> (nat \<rightharpoonup> nat) \<Rightarrow> bool" where
  "j2len_inv a b alo blo bhi i j2len =
     (\<forall>j v. j2len j = Some v \<longrightarrow>
        1 \<le> v \<and> v \<le> i - alo \<and> v \<le> j + 1 - blo \<and> j < bhi
        \<and> (\<forall>t<v. a ! (i - v + t) = b ! (j + 1 - v + t)))"

lemma flm_inner_valid:
  assumes "j2len_inv a b alo blo bhi i j2len" and "alo \<le> i" and "i < ahi"
    and "\<forall>j\<in>set js. b ! j = a ! i"
    and "j2len_inv a b alo blo bhi (Suc i) newj2len"
    and "valid_match a b alo ahi blo bhi best"
    and "flm_inner j2len i blo bhi js (newj2len, best) = (n', best')"
  shows "j2len_inv a b alo blo bhi (Suc i) n' \<and> valid_match a b alo ahi blo bhi best'"
  using assms(4-7)
proof (induction js arbitrary: newj2len best)
  case Nil
  then show ?case by simp
next
  case (Cons j js)
  obtain besti bestj bestsize where best: "best = (besti, bestj, bestsize)"
    by (cases best)
  show ?case
  proof (cases "j < blo")
    case True
    with Cons.prems best have "flm_inner j2len i blo bhi js (newj2len, best) = (n', best')"
      by simp
    with Cons.IH Cons.prems show ?thesis by simp
  next
    case lo: False
    show ?thesis
    proof (cases "bhi \<le> j")
      case True
      with lo Cons.prems best show ?thesis by simp
    next
      case hi: False
      define k where "k = (if j = 0 then 0 else (case j2len (j - 1) of None \<Rightarrow> 0 | Some v \<Rightarrow> v)) + 1"
      have eq: "b ! j = a ! i"
        using Cons.prems(1) by simp
      have kb: "1 \<le> k \<and> k \<le> Suc i - alo \<and> k \<le> j + 1 - blo"
        and kc: "\<forall>t<k. a ! (Suc i - k + t) = b ! (j + 1 - k + t)"
      proof -
        show "1 \<le> k \<and> k \<le> Suc i - alo \<and> k \<le> j + 1 - blo"
        proof (cases "j = 0 \<or> j2len (j - 1) = None")
          case True
          then have "k = 1" by (auto simp: k_def)
          with lo assms(2) show ?thesis by (simp add: not_less Suc_diff_le)
        next
          case False
          then obtain v where v: "j \<noteq> 0" "j2len (j - 1) = Some v" by auto
          then have "k = v + 1" by (simp add: k_def)
          moreover from assms(1) v have "v \<le> i - alo \<and> v \<le> (j - 1) + 1 - blo"
            unfolding j2len_inv_def by blast
          ultimately show ?thesis using v(1) lo assms(2) by (simp add: not_less Suc_diff_le)
        qed
        show "\<forall>t<k. a ! (Suc i - k + t) = b ! (j + 1 - k + t)"
        proof (cases "j = 0 \<or> j2len (j - 1) = None")
          case True
          then have "k = 1" by (auto simp: k_def)
          with eq show ?thesis by simp
        next
          case False
          then obtain v where v: "j \<noteq> 0" "j2len (j - 1) = Some v" by auto
          then have k: "k = v + 1" by (simp add: k_def)
          from assms(1) v have vb: "v \<le> i - alo \<and> v \<le> (j - 1) + 1 - blo"
            and vc: "\<forall>t<v. a ! (i - v + t) = b ! ((j - 1) + 1 - v + t)"
            unfolding j2len_inv_def by blast+
          show ?thesis
          proof (intro allI impI)
            fix t assume "t < k"
            show "a ! (Suc i - k + t) = b ! (j + 1 - k + t)"
            proof (cases "t < v")
              case True
              with vc have "a ! (i - v + t) = b ! ((j - 1) + 1 - v + t)" by blast
              moreover from vb v(1) have "v \<le> i \<and> v \<le> j" by arith
              ultimately show ?thesis using k v(1) by simp
            next
              case False
              with \<open>t < k\<close> k have "t = v" by simp
              moreover from vb v(1) have "v \<le> i \<and> v \<le> j" by arith
              ultimately show ?thesis using k eq by simp
            qed
          qed
        qed
      qed
      have inv': "j2len_inv a b alo blo bhi (Suc i) (newj2len(j \<mapsto> k))"
        unfolding j2len_inv_def
      proof (intro allI impI)
        fix j' v
        assume u: "(newj2len(j \<mapsto> k)) j' = Some v"
        show "1 \<le> v \<and> v \<le> Suc i - alo \<and> v \<le> j' + 1 - blo \<and> j' < bhi
                \<and> (\<forall>t<v. a ! (Suc i - v + t) = b ! (j' + 1 - v + t))"
        proof (cases "j' = j")
          case True
          with u have "v = k" by simp
          with kb kc hi True show ?thesis by (simp add: not_le)
        next
          case False
          with u have "newj2len j' = Some v" by simp
          with Cons.prems(2) show ?thesis unfolding j2len_inv_def by blast
        qed
      qed
      show ?thesis
      proof (cases "bestsize < k")
        case True
        have "alo \<le> i + 1 - k" "blo \<le> j + 1 - k" "i + 1 - k + k \<le> ahi" "j + 1 - k + k \<le> bhi" "k \<noteq> 0"
          using kb hi assms(2,3) lo by arith+
        then have v': "valid_match a b alo ahi blo bhi (i + 1 - k, j + 1 - k, k)"
          using kc by (simp add: valid_match_def)
        from True lo hi Cons.prems(4) best
        have "flm_inner j2len i blo bhi js (newj2len(j \<mapsto> k), i + 1 - k, j + 1 - k, k) = (n', best')"
          by (simp add: k_def Let_def)
        from Cons.IH [OF _ inv' v' this] Cons.prems(1) show ?thesis by simp
      next
        case False
        with lo hi Cons.prems(4) best
        have "flm_inner j2len i blo bhi js (newj2len(j \<mapsto> k), best) = (n', best')"
          by (simp add: k_def Let_def)
        from Cons.IH [OF _ inv' Cons.prems(3) this] Cons.prems(1) show ?thesis by simp
      qed
    qed
  qed
qed

lemma flm_outer_valid:
  assumes "b2j_sound b b2j"
    and "alo \<le> i0" and "j2len_inv a b alo blo bhi i0 j2len"
    and "valid_match a b alo ahi blo bhi best"
  shows "valid_match a b alo ahi blo bhi (flm_outer a b2j blo bhi [i0..<ahi] (j2len, best))"
  using assms(2-4)
proof (induction "ahi - i0" arbitrary: i0 j2len best)
  case 0
  then show ?case by simp
next
  case (Suc n)
  then have lt: "i0 < ahi" by simp
  let ?js = "case b2j (a ! i0) of None \<Rightarrow> [] | Some js \<Rightarrow> js"
  obtain n' best' where r: "flm_inner j2len i0 blo bhi ?js (Map.empty, best) = (n', best')"
    by (cases "flm_inner j2len i0 blo bhi ?js (Map.empty, best)")
  have js: "\<forall>j\<in>set ?js. b ! j = a ! i0"
  proof (cases "b2j (a ! i0)")
    case None
    then show ?thesis by simp
  next
    case (Some l)
    with assms(1) show ?thesis unfolding b2j_sound_def by force
  qed
  have e: "j2len_inv a b alo blo bhi (Suc i0) Map.empty"
    by (simp add: j2len_inv_def)
  from flm_inner_valid [OF Suc.prems(2) Suc.prems(1) lt js e Suc.prems(3) r]
  have f3: "j2len_inv a b alo blo bhi (Suc i0) n'" and f4: "valid_match a b alo ahi blo bhi best'"
    by simp_all
  from Suc.hyps(2) have f1: "n = ahi - Suc i0" by simp
  from Suc.prems(1) have f2: "alo \<le> Suc i0" by simp
  have "valid_match a b alo ahi blo bhi (flm_outer a b2j blo bhi [Suc i0..<ahi] (n', best'))"
    by (rule Suc.hyps(1) [OF f1 f2 f3 f4])
  moreover have "[i0..<ahi] = i0 # [Suc i0..<ahi]"
    using lt by (rule upt_conv_Cons)
  ultimately show ?case using r by simp
qed

lemma extend_left_valid:
  "valid_match a b alo ahi blo bhi m \<Longrightarrow> valid_match a b alo ahi blo bhi (extend_left a b ok alo blo m)"
proof (induction a b ok alo blo m rule: extend_left.induct)
  case (1 a b ok alo blo besti bestj bestsize)
  show ?case
  proof (cases "alo < besti \<and> blo < bestj \<and> ok (b ! (bestj - 1)) \<and> a ! (besti - 1) = b ! (bestj - 1)")
    case True
    have "valid_match a b alo ahi blo bhi (besti - 1, bestj - 1, bestsize + 1)"
      using "1.prems" True
      by (auto simp: valid_match_def less_Suc_eq_0_disj split: if_splits)
    with "1.IH" True show ?thesis
      by (simp add: extend_left.simps [of a b ok alo blo besti bestj bestsize])
  next
    case False
    with "1.prems" show ?thesis
      by (auto simp: extend_left.simps [of a b ok alo blo besti bestj bestsize])
  qed
qed

lemma extend_right_valid:
  "valid_match a b alo ahi blo bhi m \<Longrightarrow> valid_match a b alo ahi blo bhi (extend_right a b ok ahi bhi m)"
proof (induction a b ok ahi bhi m rule: extend_right.induct)
  case (1 a b ok ahi bhi besti bestj bestsize)
  show ?case
  proof (cases "besti + bestsize < ahi \<and> bestj + bestsize < bhi \<and> ok (b ! (bestj + bestsize))
         \<and> a ! (besti + bestsize) = b ! (bestj + bestsize)")
    case True
    have "valid_match a b alo ahi blo bhi (besti, bestj, bestsize + 1)"
      using "1.prems" True
      by (auto simp: valid_match_def less_Suc_eq split: if_splits)
    with "1.IH" True show ?thesis
      by (simp add: extend_right.simps [of a b ok ahi bhi besti bestj bestsize])
  next
    case False
    with "1.prems" show ?thesis
      by (auto simp: extend_right.simps [of a b ok ahi bhi besti bestj bestsize])
  qed
qed

lemma find_longest_match_valid:
  "valid_match a b alo ahi blo bhi (find_longest_match a b alo ahi blo bhi)"
  unfolding find_longest_match_def
  by (intro extend_right_valid extend_left_valid flm_outer_valid chain_b_sound)
    (simp_all add: j2len_inv_def valid_match_def)

lemma find_longest_match_bounds:
  assumes "(i, j, k) = find_longest_match a b alo ahi blo bhi" and "k \<noteq> 0"
  shows "alo \<le> i \<and> i + k \<le> ahi \<and> blo \<le> j \<and> j + k \<le> bhi"
  using find_longest_match_valid [of a b alo ahi blo bhi] assms
  by (simp add: valid_match_def split: prod.splits)

subsection \<open>\<open>get_matching_blocks\<close> and the three ratios\<close>

text \<open>
  \<open>get_matching_blocks\<close> takes windows from a work list, records the longest
  match of each and puts the windows to its left and to its right back on the
  list.  The model follows the two windows directly; the order in which the
  blocks are found, their sorting and the merging of adjacent blocks do not
  change the sum of their sizes, which is all that \<open>ratio\<close> reads.
\<close>

function matching_blocks :: "string \<Rightarrow> string \<Rightarrow> nat \<Rightarrow> nat \<Rightarrow> nat \<Rightarrow> nat \<Rightarrow> (nat \<times> nat \<times> nat) list" where
  "matching_blocks a b alo ahi blo bhi =
     (case find_longest_match a b alo ahi blo bhi of
        (i, j, k) \<Rightarrow>
          if k = 0 then []
          else (i, j, k)
               # (if alo < i \<and> blo < j then matching_blocks a b alo i blo j else [])
               @ (if i + k < ahi \<and> j + k < bhi then matching_blocks a b (i + k) ahi (j + k) bhi
                  else []))"
  by pat_completeness auto
termination
  by (relation "measure (\<lambda>(a, b, alo, ahi, blo, bhi). ahi - alo)")
    (auto dest!: find_longest_match_bounds)

declare matching_blocks.simps [simp del]

definition get_matching_blocks :: "string \<Rightarrow> string \<Rightarrow> (nat \<times> nat \<times> nat) list" where
  "get_matching_blocks a b = matching_blocks a b 0 (length a) 0 (length b)"

text \<open>
  \<open>_calculate_ratio\<close> returns the float \<open>2.0 * matches / length\<close>.  The model keeps
  the exact quotient.  The program only compares these numbers, with the cutoff
  and with each other, and a correctly rounded quotient of two integers compares
  like the exact one for every pair of strings a machine can hold (the exact
  values are either equal or differ by far more than the rounding error).
\<close>

definition calculate_ratio :: "nat \<Rightarrow> nat \<Rightarrow> rat" where
  "calculate_ratio matches len = (if len \<noteq> 0 then 2 * of_nat matches / of_nat len else 1)"

definition ratio :: "string \<Rightarrow> string \<Rightarrow> rat" where
  "ratio a b =
     calculate_ratio (sum_list (map (\<lambda>(i, j, k). k) (get_matching_blocks a b)))
       (length a + length b)"

definition fullbcount :: "string \<Rightarrow> (char \<rightharpoonup> int)" where
  "fullbcount b = fold (\<lambda>elt m. m(elt \<mapsto> (case m elt of None \<Rightarrow> 0 | Some n \<Rightarrow> n) + 1)) b Map.empty"

fun quick_ratio_loop ::
  "(char \<rightharpoonup> int) \<Rightarrow> string \<Rightarrow> (char \<rightharpoonup> int) \<times> nat \<Rightarrow> (char \<rightharpoonup> int) \<times> nat" where
  "quick_ratio_loop fbc [] st = st"
| "quick_ratio_loop fbc (elt # as) (avail, matches) =
     (let numb = (case avail elt of
                    Some n \<Rightarrow> n
                  | None \<Rightarrow> (case fbc elt of None \<Rightarrow> 0 | Some n \<Rightarrow> n))
      in quick_ratio_loop fbc as
           (avail(elt \<mapsto> numb - 1), if 0 < numb then matches + 1 else matches))"

definition quick_ratio :: "string \<Rightarrow> string \<Rightarrow> rat" where
  "quick_ratio a b =
     calculate_ratio (snd (quick_ratio_loop (fullbcount b) a (Map.empty, 0)))
       (length a + length b)"

definition real_quick_ratio :: "string \<Rightarrow> string \<Rightarrow> rat" where
  "real_quick_ratio a b = calculate_ratio (min (length a) (length b)) (length a + length b)"

subsection \<open>\<open>get_close_matches\<close> with \<open>n = 1\<close>\<close>

text \<open>
  \<open>heapq.nlargest(1, result)\<close> is \<open>max(result)\<close>: the first element is kept until
  a strictly greater one comes.  The elements are the pairs \<open>(score, x)\<close>, which
  Python compares lexicographically: by score, and on equal scores by the
  strings, code point by code point.
\<close>

fun py_max :: "'a::linorder list \<Rightarrow> 'a option" where
  "py_max [] = None"
| "py_max (x # xs) = Some (fold (\<lambda>item best. if best < item then item else best) xs x)"

definition nlargest1 :: "'a::linorder list \<Rightarrow> 'a list" where
  "nlargest1 result = (case py_max result of None \<Rightarrow> [] | Some r \<Rightarrow> [r])"

definition close_enough :: "rat \<Rightarrow> string \<Rightarrow> string \<Rightarrow> bool" where
  "close_enough cutoff word x =
     (cutoff \<le> real_quick_ratio x word \<and> cutoff \<le> quick_ratio x word \<and> cutoff \<le> ratio x word)"

definition get_close_matches :: "string \<Rightarrow> string list \<Rightarrow> rat \<Rightarrow> string list" where
  "get_close_matches word possibilities cutoff =
     map snd (nlargest1 (map (\<lambda>x. (ratio x word, x)) (filter (close_enough cutoff word) possibilities)))"

section \<open>The validation table and the matching step of \<open>SET_DESC\<close>\<close>

text \<open>
  A row of the data frame: the two input columns and the three columns that
  \<open>PN_Validation_New\<close> adds.  A cell of an added column is \<open>None\<close> until
  \<open>SET_DESC\<close> writes it.
\<close>

record row =
  MPN :: string
  PDF :: string
  STATUS :: "string option"
  EQUIVALENT :: "string option"
  SIMILARS :: "string option"

text \<open>
  \<open>'|'.join(semi_regex)\<close> reads a Python \<open>set\<close> of strings, whose iteration order
  depends on the string hashes of the interpreter process.  The order is a
  parameter \<open>ord\<close> of the model: it receives the stripped matches in the order
  \<open>findall\<close> found them and returns the members of the set in the order of
  iteration.  \<open>set_order ord\<close> says that \<open>ord\<close> is such an order: every member
  once, nothing else.
\<close>

definition set_order :: "(string list \<Rightarrow> string list) \<Rightarrow> bool" where
  "set_order ord = (\<forall>xs. distinct (ord xs) \<and> set (ord xs) = set xs)"

text \<open>Lines 85 to 103 of the source: the three-way classification of a resolved text.\<close>

definition match_values :: "(string list \<Rightarrow> string list) \<Rightarrow> string \<Rightarrow> string \<Rightarrow> row \<Rightarrow> row" where
  "match_values ord part values r =
     (case re_search part values of
        Some exact \<Rightarrow>
          (let semi_regex = map py_strip (re_findall part values);
               r1 = r\<lparr>STATUS := Some ''Exact'', EQUIVALENT := Some exact\<rparr>
           in if semi_regex \<noteq> [] then r1\<lparr>SIMILARS := Some (join ''|'' (ord semi_regex))\<rparr> else r1)
      | None \<Rightarrow>
          (case get_close_matches part (re_split values) (65 / 100) of
             pdf_part # _ \<Rightarrow>
               r\<lparr>STATUS := Some ''Includes or Missed Suffixes'', EQUIVALENT := Some pdf_part\<rparr>
           | [] \<Rightarrow> r\<lparr>STATUS := Some ''Not Found''\<rparr>))"

section \<open>Fetching, extraction and OCR\<close>

text \<open>
  The network, the PDF parser and the OCR engine are outside the program.  The
  model takes them as an environment and records what the program asks of them
  in a trace of events.  The answer of the network may change from one request
  to the next, so it depends on the number of events before the request.  The
  worker threads of an executor are run one after the other, in the order of
  their arguments, which is the order in which \<open>executor.map\<close> returns results.
\<close>

type_synonym bytes = "char list"

datatype http_result = Raised | Response nat bytes

datatype event = HttpGet string "nat option" | OcrRun bytes | Print string

datatype error = RequestError | ReaderError

record env =
  net :: "nat \<Rightarrow> string \<Rightarrow> nat option \<Rightarrow> http_result"
  fitz_text :: "bytes \<Rightarrow> string list option"
  reader_ok :: bool
  ocr_read :: "bytes \<Rightarrow> string list list option"

text \<open>
  \<open>requests.get(url, timeout=t)\<close>; the timeout is \<open>None\<close> when the call gives none.
  The call raises on a transport error or an elapsed timeout and otherwise
  returns a response, whatever its status code.
\<close>

definition requests_get :: "env \<Rightarrow> string \<Rightarrow> nat option \<Rightarrow> event list \<Rightarrow> event list \<times> http_result" where
  "requests_get e url timeout tr = (tr @ [HttpGet url timeout], net e (length tr) url timeout)"

text \<open>\<open>response.raise_for_status()\<close> raises for the status codes 400 to 599.\<close>

definition raise_for_status :: "nat \<Rightarrow> bool" where
  "raise_for_status code = (400 \<le> code \<and> code < 600)"

definition GetPDFResponse :: "env \<Rightarrow> string \<Rightarrow> event list \<Rightarrow> event list \<times> string \<times> bytes option" where
  "GetPDFResponse e pdf tr =
     (case requests_get e pdf (Some 10) tr of
        (tr1, Raised) \<Rightarrow> (tr1 @ [Print (''Error fetching PDF '' @ pdf)], pdf, None)
      | (tr1, Response code content) \<Rightarrow>
          if raise_for_status code then (tr1 @ [Print (''Error fetching PDF '' @ pdf)], pdf, None)
          else (tr1, pdf, Some content))"

text \<open>\<open>list(executor.map(f, xs))\<close>, one call after the other.\<close>

fun executor_map :: "('a \<Rightarrow> event list \<Rightarrow> event list \<times> 'b) \<Rightarrow> 'a list \<Rightarrow> event list \<Rightarrow> event list \<times> 'b list" where
  "executor_map f [] tr = (tr, [])"
| "executor_map f (x # xs) tr =
     (case f x tr of
        (tr1, y) \<Rightarrow> (case executor_map f xs tr1 of (tr2, ys) \<Rightarrow> (tr2, y # ys)))"

text \<open>The loop over the results of one chunk: the text of every document that opens is stored.\<close>

fun read_results :: "env \<Rightarrow> (string \<times> bytes option) list \<Rightarrow> event list \<times> (string \<rightharpoonup> string) \<Rightarrow> event list \<times> (string \<rightharpoonup> string)" where
  "read_results e [] st = st"
| "read_results e ((pdf, byt) # results) (tr, pdfData) =
     (case byt of
        None \<Rightarrow> read_results e results (tr, pdfData)
      | Some content \<Rightarrow>
          (case fitz_text e content of
             Some pages \<Rightarrow> read_results e results (tr, pdfData(pdf \<mapsto> join [CHR 0x0A] pages))
           | None \<Rightarrow> read_results e results (tr @ [Print (''Error reading PDF '' @ pdf)], pdfData)))"

text \<open>\<open>[pdfs[i:i + 100] for i in range(0, len(pdfs), 100)]\<close>\<close>

definition chunks :: "'a list \<Rightarrow> 'a list list" where
  "chunks pdfs = map (\<lambda>i. take 100 (drop i pdfs)) (filter (\<lambda>i. i mod 100 = 0) [0..<length pdfs])"

fun chunk_loop :: "env \<Rightarrow> string list list \<Rightarrow> event list \<times> (string \<rightharpoonup> string) \<Rightarrow> event list \<times> (string \<rightharpoonup> string)" where
  "chunk_loop e [] st = st"
| "chunk_loop e (chunk # rest) (tr, pdfData) =
     (case executor_map (GetPDFResponse e) chunk tr of
        (tr1, results) \<Rightarrow> chunk_loop e rest (read_results e results (tr1, pdfData)))"

definition GetPDFText :: "env \<Rightarrow> string list \<Rightarrow> event list \<Rightarrow> event list \<times> (string \<rightharpoonup> string)" where
  "GetPDFText e pdfs tr = chunk_loop e (chunks pdfs) (tr, Map.empty)"

text \<open>
  \<open>ocr_text_from_pdf\<close>: the reader is built before the \<open>try\<close>, so a failure to build
  it leaves the function as an exception; a failure while the pages are read is
  printed and gives the empty string.
\<close>

definition ocr_text_from_pdf :: "env \<Rightarrow> bytes \<Rightarrow> event list \<Rightarrow> event list \<times> (error + string)" where
  "ocr_text_from_pdf e pdf_bytes tr =
     (let tr1 = tr @ [OcrRun pdf_bytes]
      in if \<not> reader_ok e then (tr1, Inl ReaderError)
         else (case ocr_read e pdf_bytes of
                 None \<Rightarrow> (tr1 @ [Print ''Error with OCR processing''], Inr [])
               | Some pages \<Rightarrow>
                   (tr1, Inr (py_strip (concat (map (\<lambda>results. join '' '' results @ [CHR 0x0A]) pages))))))"

section \<open>\<open>PN_Validation_New\<close>\<close>

text \<open>
  Lines 79 to 82: the text that the matching step receives for a row whose
  location has the digital text \<open>values\<close>.  The document is fetched again, by
  a call that gives no timeout and stands in no \<open>try\<close>, and its bytes go to the
  OCR; \<open>Inl\<close> is the exception that leaves \<open>SET_DESC\<close>.
\<close>

definition resolve_text :: "env \<Rightarrow> string \<Rightarrow> string \<Rightarrow> event list \<Rightarrow> event list \<times> (error + string)" where
  "resolve_text e pdf_url values tr =
     (if length values \<le> 100
      then (case requests_get e pdf_url None tr of
              (tr1, Raised) \<Rightarrow> (tr1, Inl RequestError)
            | (tr1, Response code pdf_bytes) \<Rightarrow> ocr_text_from_pdf e pdf_bytes tr1)
      else (tr, Inr values))"

text \<open>
  \<open>SET_DESC\<close> for one row.  \<open>Inr\<close> carries the row as the function leaves it on
  return, \<open>Inl\<close> the exception that leaves the function; every exception is
  raised before the first write to the row.
\<close>

definition SET_DESC ::
  "env \<Rightarrow> (string list \<Rightarrow> string list) \<Rightarrow> (string \<rightharpoonup> string) \<Rightarrow> row \<Rightarrow> event list \<Rightarrow> event list \<times> (error + row)" where
  "SET_DESC e ord pdf_data r tr =
     (let part = MPN r; pdf_url = PDF r
      in case pdf_data pdf_url of
           None \<Rightarrow> (tr, Inr (r\<lparr>STATUS := Some ''May be Broken''\<rparr>))
         | Some values \<Rightarrow>
             (case resolve_text e pdf_url values tr of
                (tr2, Inl err) \<Rightarrow> (tr2, Inl err)
              | (tr2, Inr values') \<Rightarrow> (tr2, Inr (match_values ord part values' r))))"

text \<open>
  The rows are handed to \<open>executor.map\<close>, whose results are never read: an
  exception of a worker stays in its future and the row keeps the cells it had.
\<close>

fun set_desc_all ::
  "env \<Rightarrow> (string list \<Rightarrow> string list) \<Rightarrow> (string \<rightharpoonup> string) \<Rightarrow> row list \<Rightarrow> event list \<Rightarrow> event list \<times> row list" where
  "set_desc_all e ord pdf_data [] tr = (tr, [])"
| "set_desc_all e ord pdf_data (r # rs) tr =
     (case SET_DESC e ord pdf_data r tr of
        (tr1, res) \<Rightarrow>
          (case set_desc_all e ord pdf_data rs tr1 of
             (tr2, rs') \<Rightarrow> (tr2, (case res of Inl err \<Rightarrow> r | Inr r' \<Rightarrow> r') # rs')))"

definition PN_Validation_New ::
  "env \<Rightarrow> (string list \<Rightarrow> string list) \<Rightarrow> (string \<rightharpoonup> string) \<Rightarrow> row list \<Rightarrow> event list \<Rightarrow> event list \<times> row list" where
  "PN_Validation_New e ord pdf_data data tr =
     set_desc_all e ord pdf_data
       (map (\<lambda>r. r\<lparr>STATUS := None, EQUIVALENT := None, SIMILARS := None\<rparr>) data) tr"

text \<open>Lines 121 to 123 of \<open>main\<close>: the map is built from the \<open>PDF\<close> column as it is, then the rows are validated.\<close>

definition validate :: "env \<Rightarrow> (string list \<Rightarrow> string list) \<Rightarrow> row list \<Rightarrow> event list \<times> row list" where
  "validate e ord data =
     (let pdfs = map PDF data
      in case GetPDFText e pdfs [] of
           (tr, pdf_data) \<Rightarrow> PN_Validation_New e ord pdf_data data tr)"

section \<open>Properties of the matching step\<close>

text \<open>
  The identifier occurs in the text at offset \<open>i\<close>, up to case: the notion of a
  verbatim, case-insensitive occurrence that the properties below are stated with.
\<close>

definition occurs_at :: "string \<Rightarrow> string \<Rightarrow> nat \<Rightarrow> bool" where
  "occurs_at part t i =
     (i + length part \<le> length t
      \<and> map py_lower (take (length part) (drop i t)) = map py_lower part)"

lemma match_literal_iff:
  "match_literal part t \<longleftrightarrow>
     length part \<le> length t \<and> map py_lower (take (length part) t) = map py_lower part"
  by (induction part t rule: match_literal.induct) auto

lemma match_literal_occurs: "match_literal part t \<longleftrightarrow> occurs_at part t 0"
  by (simp add: match_literal_iff occurs_at_def)

lemma occurs_at_Cons: "occurs_at part (c # cs) (Suc i) \<longleftrightarrow> occurs_at part cs i"
  by (simp add: occurs_at_def)

lemma occurs_at_Nil: "occurs_at part [] i \<longleftrightarrow> i = 0 \<and> part = []"
  by (auto simp: occurs_at_def)

lemma re_search_first:
  assumes "occurs_at part t i"
  shows "\<exists>j\<le>i. occurs_at part t j \<and> (\<forall>j'<j. \<not> occurs_at part t j')
           \<and> re_search part t = Some (take (length part) (drop j t))"
  using assms
proof (induction t arbitrary: i)
  case Nil
  then show ?case by (simp add: occurs_at_Nil)
next
  case (Cons c cs)
  show ?case
  proof (cases "match_literal part (c # cs)")
    case True
    then have "occurs_at part (c # cs) 0 \<and> (\<forall>j'<0::nat. \<not> occurs_at part (c # cs) j')
        \<and> re_search part (c # cs) = Some (take (length part) (drop 0 (c # cs)))"
      by (simp add: match_literal_occurs)
    then show ?thesis by blast
  next
    case False
    then have no0: "\<not> occurs_at part (c # cs) 0"
      by (simp add: match_literal_occurs)
    with Cons.prems obtain i' where i': "i = Suc i'"
      by (cases i) auto
    with Cons.prems have "occurs_at part cs i'"
      by (simp add: occurs_at_Cons)
    from Cons.IH [OF this] obtain j where j: "j \<le> i'" "occurs_at part cs j"
      "\<forall>j'<j. \<not> occurs_at part cs j'" "re_search part cs = Some (take (length part) (drop j cs))"
      by blast
    have "\<forall>j'<Suc j. \<not> occurs_at part (c # cs) j'"
    proof (intro allI impI)
      fix j' assume "j' < Suc j"
      then show "\<not> occurs_at part (c # cs) j'"
        using no0 j(3) by (cases j') (auto simp: occurs_at_Cons)
    qed
    with j i' False have "Suc j \<le> i \<and> occurs_at part (c # cs) (Suc j)
        \<and> (\<forall>j'<Suc j. \<not> occurs_at part (c # cs) j')
        \<and> re_search part (c # cs) = Some (take (length part) (drop (Suc j) (c # cs)))"
      by (simp add: occurs_at_Cons)
    then show ?thesis by blast
  qed
qed

lemma re_search_None: "re_search part t = None \<longleftrightarrow> (\<forall>i. \<not> occurs_at part t i)"
proof (induction t)
  case Nil
  then show ?case by (auto simp: occurs_at_Nil match_literal_occurs)
next
  case (Cons c cs)
  show ?case
  proof (cases "match_literal part (c # cs)")
    case True
    then show ?thesis by (auto simp: match_literal_occurs)
  next
    case False
    have "(\<forall>i. \<not> occurs_at part (c # cs) i) \<longleftrightarrow> (\<forall>i. \<not> occurs_at part cs i)"
    proof
      assume "\<forall>i. \<not> occurs_at part (c # cs) i"
      then show "\<forall>i. \<not> occurs_at part cs i"
        by (metis occurs_at_Cons)
    next
      assume a: "\<forall>i. \<not> occurs_at part cs i"
      show "\<forall>i. \<not> occurs_at part (c # cs) i"
      proof
        fix i
        show "\<not> occurs_at part (c # cs) i"
          using a False by (cases i) (auto simp: occurs_at_Cons match_literal_occurs)
      qed
    qed
    with False Cons.IH show ?thesis by simp
  qed
qed

lemma match_values_exact:
  assumes "re_search part values = Some exact"
  shows "STATUS (match_values ord part values r) = Some ''Exact''"
    and "EQUIVALENT (match_values ord part values r) = Some exact"
  using assms by (simp_all add: match_values_def Let_def)

lemma SET_DESC_resolved:
  assumes "pdf_data (PDF r) = Some values"
    and "resolve_text e (PDF r) values tr = (tr', Inr t)"
  shows "SET_DESC e ord pdf_data r tr = (tr', Inr (match_values ord (MPN r) t r))"
  using assms by (simp add: SET_DESC_def)

lemma set_desc_all_length: "length (snd (set_desc_all e ord pdf_data rs tr)) = length rs"
proof (induction rs arbitrary: tr)
  case Nil
  then show ?case by simp
next
  case (Cons r rs)
  obtain tr1 res where s: "SET_DESC e ord pdf_data r tr = (tr1, res)"
    by (cases "SET_DESC e ord pdf_data r tr")
  obtain tr2 rs' where a: "set_desc_all e ord pdf_data rs tr1 = (tr2, rs')"
    by (cases "set_desc_all e ord pdf_data rs tr1")
  from Cons.IH [of tr1] a have "length rs' = length rs" by simp
  with s a show ?case by simp
qed

lemma set_desc_all_nth:
  assumes "i < length rs"
  shows "\<exists>tr_i. snd (set_desc_all e ord pdf_data rs tr) ! i =
           (case snd (SET_DESC e ord pdf_data (rs ! i) tr_i) of Inl err \<Rightarrow> rs ! i | Inr r' \<Rightarrow> r')"
  using assms
proof (induction rs arbitrary: i tr)
  case Nil
  then show ?case by simp
next
  case (Cons r rs)
  obtain tr1 res where s: "SET_DESC e ord pdf_data r tr = (tr1, res)"
    by (cases "SET_DESC e ord pdf_data r tr")
  obtain tr2 rs' where a: "set_desc_all e ord pdf_data rs tr1 = (tr2, rs')"
    by (cases "set_desc_all e ord pdf_data rs tr1")
  show ?case
  proof (cases i)
    case 0
    with s a have "snd (set_desc_all e ord pdf_data (r # rs) tr) ! i =
        (case snd (SET_DESC e ord pdf_data ((r # rs) ! i) tr) of Inl err \<Rightarrow> (r # rs) ! i | Inr r' \<Rightarrow> r')"
      by (simp split: sum.splits)
    then show ?thesis by blast
  next
    case (Suc i')
    with Cons.prems have "i' < length rs" by simp
    from Cons.IH [OF this, of tr1] obtain tr_i where
      "snd (set_desc_all e ord pdf_data rs tr1) ! i' =
         (case snd (SET_DESC e ord pdf_data (rs ! i') tr_i) of Inl err \<Rightarrow> rs ! i' | Inr r' \<Rightarrow> r')"
      by blast
    with s a Suc have "snd (set_desc_all e ord pdf_data (r # rs) tr) ! i =
        (case snd (SET_DESC e ord pdf_data ((r # rs) ! i) tr_i) of Inl err \<Rightarrow> (r # rs) ! i | Inr r' \<Rightarrow> r')"
      by (simp split: sum.splits)
    then show ?thesis by blast
  qed
qed

lemma SET_DESC_missing:
  assumes "pdf_data (PDF r) = None"
  shows "SET_DESC e ord pdf_data r tr = (tr, Inr (r\<lparr>STATUS := Some ''May be Broken''\<rparr>))"
  using assms by (simp add: SET_DESC_def)

section \<open>Counting the requests\<close>

text \<open>
  \<open>fetches u tr\<close> is the number of GET requests for the location \<open>u\<close> in a
  trace.  \<open>needs_ocr\<close> is the test of line 79 on the digital text of a location.
\<close>

definition is_fetch :: "string \<Rightarrow> event \<Rightarrow> bool" where
  "is_fetch u ev = (case ev of HttpGet v timeout \<Rightarrow> v = u | _ \<Rightarrow> False)"

definition fetches :: "string \<Rightarrow> event list \<Rightarrow> nat" where
  "fetches u tr = length (filter (is_fetch u) tr)"



lemma fetches_append: "fetches u (tr @ tr') = fetches u tr + fetches u tr'"
  by (simp add: fetches_def)





lemma count_list_append: "count_list (xs @ ys) u = count_list xs u + count_list ys u"
  by (induction xs) auto












lemma resolve_text_digital:
  assumes "100 < length values"
  shows "resolve_text e pdf_url values tr = (tr, Inr values)"
  using assms by (simp add: resolve_text_def)

lemma resolve_text_ocr:
  assumes "length values \<le> 100" and "net e (length tr) pdf_url None = Response code pdf_bytes"
  shows "resolve_text e pdf_url values tr = ocr_text_from_pdf e pdf_bytes (tr @ [HttpGet pdf_url None])"
  using assms by (simp add: resolve_text_def requests_get_def)

section \<open>The order of the similars\<close>

text \<open>
  Two similars cells agree when they are equal or list the same members, each
  once, joined by the pipe in some order.
\<close>

definition similars_agree :: "string option \<Rightarrow> string option \<Rightarrow> bool" where
  "similars_agree s1 s2 =
     (s1 = s2
      \<or> (\<exists>xs ys. distinct xs \<and> distinct ys \<and> set xs = set ys
            \<and> s1 = Some (join ''|'' xs) \<and> s2 = Some (join ''|'' ys)))"

lemma set_order_remdups: "set_order remdups"
  by (simp add: set_order_def)

lemma set_order_rev_remdups: "set_order (rev \<circ> remdups)"
  by (simp add: set_order_def)

lemma distinct_same_set_small:
  assumes "distinct xs" and "distinct ys" and "set xs = set ys" and "card (set xs) \<le> 1"
  shows "xs = ys"
proof -
  from assms have l: "length xs \<le> 1" "length ys \<le> 1"
    by (simp_all add: distinct_card [symmetric])
  show ?thesis
  proof (cases xs)
    case Nil
    with assms(3) show ?thesis by simp
  next
    case (Cons x xs')
    with l(1) have xs: "xs = [x]" by simp
    with assms(3) l(2) show ?thesis
      by (cases ys) auto
  qed
qed

section \<open>The ratios of \<open>difflib\<close>\<close>

text \<open>
  \<open>quick_ratio\<close> and \<open>real_quick_ratio\<close> are upper bounds of \<open>ratio\<close>, as their
  docstrings say: the matching blocks pair equal elements of the two strings, so
  their sizes add up to at most the size of the intersection of the two strings
  as multisets, which is what \<open>quick_ratio\<close> counts.  A token therefore passes
  the three tests of \<open>get_close_matches\<close> exactly when its \<open>ratio\<close> reaches the
  cutoff.
\<close>

definition slice :: "'a list \<Rightarrow> nat \<Rightarrow> nat \<Rightarrow> 'a list" where
  "slice xs lo hi = take (hi - lo) (drop lo xs)"

definition block_sum :: "(nat \<times> nat \<times> nat) list \<Rightarrow> nat" where
  "block_sum bs = sum_list (map (\<lambda>(i, j, k). k) bs)"

definition avail_count :: "(char \<rightharpoonup> int) \<Rightarrow> (char \<rightharpoonup> int) \<Rightarrow> char \<Rightarrow> int" where
  "avail_count fbc avail elt =
     (case avail elt of
        Some n \<Rightarrow> n
      | None \<Rightarrow> (case fbc elt of None \<Rightarrow> 0 | Some n \<Rightarrow> n))"

text \<open>
  The token that a tie-break by first occurrence would return: the first token
  in scan order that reaches the cutoff and whose ratio no other token exceeds.
\<close>

definition first_highest :: "rat \<Rightarrow> string \<Rightarrow> string list \<Rightarrow> string option" where
  "first_highest cutoff word toks =
     find (\<lambda>x. cutoff \<le> ratio x word \<and> list_all (\<lambda>y. ratio y word \<le> ratio x word) toks) toks"

lemma slice_split:
  assumes "lo \<le> mid" and "mid \<le> hi"
  shows "slice xs lo hi = slice xs lo mid @ slice xs mid hi"
proof -
  from assms have "hi - lo = (mid - lo) + (hi - mid)" by simp
  then have "take (hi - lo) (drop lo xs) =
      take (mid - lo) (drop lo xs) @ take (hi - mid) (drop (mid - lo) (drop lo xs))"
    by (simp add: take_add)
  with assms show ?thesis by (simp add: slice_def)
qed

lemma slice_eq_nth:
  assumes "\<forall>t<k. a ! (i + t) = b ! (j + t)" and "i + k \<le> length a" and "j + k \<le> length b"
  shows "slice a i (i + k) = slice b j (j + k)"
  using assms by (intro nth_equalityI) (auto simp: slice_def)

lemma inter_three:
  "size (A1 \<inter># B1) + size M + size (A2 \<inter># B2) \<le> size ((A1 + M + A2) \<inter># (B1 + M + B2))"
proof -
  have "(A1 \<inter># B1) + M + (A2 \<inter># B2) \<subseteq># (A1 + M + A2) \<inter># (B1 + M + B2)"
    by (simp add: subseteq_mset_def) (auto intro!: add_mono)
  from size_mset_mono [OF this] show ?thesis by simp
qed

lemma block_sum_Nil: "block_sum [] = 0"
  by (simp add: block_sum_def)

lemma block_sum_Cons: "block_sum ((i, j, k) # bs) = k + block_sum bs"
  by (simp add: block_sum_def)

lemma block_sum_append: "block_sum (bs @ cs) = block_sum bs + block_sum cs"
  by (simp add: block_sum_def)

lemma block_sum_unfold:
  "block_sum (matching_blocks a b alo ahi blo bhi) =
     (case find_longest_match a b alo ahi blo bhi of
        (i, j, k) \<Rightarrow>
          if k = 0 then 0
          else k + (if alo < i \<and> blo < j then block_sum (matching_blocks a b alo i blo j) else 0)
                 + (if i + k < ahi \<and> j + k < bhi
                    then block_sum (matching_blocks a b (i + k) ahi (j + k) bhi) else 0))"
proof -
  obtain i j k where f: "find_longest_match a b alo ahi blo bhi = (i, j, k)"
    by (cases "find_longest_match a b alo ahi blo bhi")
  have "matching_blocks a b alo ahi blo bhi =
      (if k = 0 then []
       else (i, j, k)
            # (if alo < i \<and> blo < j then matching_blocks a b alo i blo j else [])
            @ (if i + k < ahi \<and> j + k < bhi then matching_blocks a b (i + k) ahi (j + k) bhi
               else []))"
    by (subst matching_blocks.simps) (simp add: f)
  then show ?thesis
    unfolding f by (simp add: block_sum_Nil block_sum_Cons block_sum_append)
qed

lemma block_sum_le_inter:
  assumes "alo \<le> ahi" and "ahi \<le> length a" and "blo \<le> bhi" and "bhi \<le> length b"
  shows "block_sum (matching_blocks a b alo ahi blo bhi)
           \<le> size (mset (slice a alo ahi) \<inter># mset (slice b blo bhi))"
  using assms
proof (induction "ahi - alo" arbitrary: alo ahi blo bhi rule: less_induct)
  case less
  obtain i j k where f: "find_longest_match a b alo ahi blo bhi = (i, j, k)"
    by (cases "find_longest_match a b alo ahi blo bhi")
  show ?case
  proof (cases "k = 0")
    case True
    with f show ?thesis by (simp add: block_sum_unfold)
  next
    case False
    from find_longest_match_valid [of a b alo ahi blo bhi] f False
    have v: "alo \<le> i" "i + k \<le> ahi" "blo \<le> j" "j + k \<le> bhi" "\<forall>t<k. a ! (i + t) = b ! (j + t)"
      by (simp_all add: valid_match_def)
    let ?L = "if alo < i \<and> blo < j then block_sum (matching_blocks a b alo i blo j) else 0"
    let ?R = "if i + k < ahi \<and> j + k < bhi
              then block_sum (matching_blocks a b (i + k) ahi (j + k) bhi) else 0"
    have L: "?L \<le> size (mset (slice a alo i) \<inter># mset (slice b blo j))"
    proof (cases "alo < i \<and> blo < j")
      case True
      have "i - alo < ahi - alo" using v False True by arith
      from less.hyps [OF this] v less.prems True show ?thesis by simp
    next
      case False
      then show ?thesis by auto
    qed
    have R: "?R \<le> size (mset (slice a (i + k) ahi) \<inter># mset (slice b (j + k) bhi))"
    proof (cases "i + k < ahi \<and> j + k < bhi")
      case True
      have "ahi - (i + k) < ahi - alo" using v False True by arith
      from less.hyps [OF this] v less.prems True show ?thesis by simp
    next
      case False
      then show ?thesis by auto
    qed
    have mid: "slice a i (i + k) = slice b j (j + k)"
      using v less.prems by (intro slice_eq_nth) simp_all
    have ka: "size (mset (slice a i (i + k))) = k"
      using v less.prems by (simp add: slice_def)
    have sa: "slice a alo ahi = slice a alo i @ slice a i (i + k) @ slice a (i + k) ahi"
      using v slice_split [of alo i ahi a] slice_split [of i "i + k" ahi a] by simp
    have sb: "slice b blo bhi = slice b blo j @ slice b j (j + k) @ slice b (j + k) bhi"
      using v slice_split [of blo j bhi b] slice_split [of j "j + k" bhi b] by simp
    have "block_sum (matching_blocks a b alo ahi blo bhi) = k + ?L + ?R"
      using f False by (simp add: block_sum_unfold)
    also have "\<dots> \<le> size (mset (slice a alo i) \<inter># mset (slice b blo j)) + k
        + size (mset (slice a (i + k) ahi) \<inter># mset (slice b (j + k) bhi))"
      using L R by simp
    also have "\<dots> \<le> size ((mset (slice a alo i) + mset (slice a i (i + k)) + mset (slice a (i + k) ahi))
        \<inter># (mset (slice b blo j) + mset (slice a i (i + k)) + mset (slice b (j + k) bhi)))"
      using inter_three [of "mset (slice a alo i)" "mset (slice b blo j)" "mset (slice a i (i + k))"
          "mset (slice a (i + k) ahi)" "mset (slice b (j + k) bhi)"] ka
      by simp
    also have "\<dots> = size (mset (slice a alo ahi) \<inter># mset (slice b blo bhi))"
      by (subst sa, subst sb) (simp add: mid ac_simps)
    finally show ?thesis .
  qed
qed


lemma slice_all: "slice xs 0 (length xs) = xs"
  by (simp add: slice_def)

lemma matches_le_inter:
  "block_sum (get_matching_blocks a b) \<le> size (mset a \<inter># mset b)"
  using block_sum_le_inter [of 0 "length a" a 0 "length b" b]
  by (simp add: get_matching_blocks_def slice_all)

lemma quick_ratio_loop_inter:
  assumes "\<forall>c. count M c = nat (avail_count fbc avail c)"
  shows "snd (quick_ratio_loop fbc a (avail, matches)) = matches + size (mset a \<inter># M)"
  using assms
proof (induction a arbitrary: avail matches M)
  case Nil
  then show ?case by simp
next
  case (Cons elt as)
  define numb where "numb = avail_count fbc avail elt"
  have step: "quick_ratio_loop fbc (elt # as) (avail, matches) =
      quick_ratio_loop fbc as (avail(elt \<mapsto> numb - 1), if 0 < numb then matches + 1 else matches)"
    by (simp add: numb_def avail_count_def Let_def)
  have cnt: "count M elt = nat numb"
    using Cons.prems by (simp add: numb_def)
  show ?case
  proof (cases "0 < numb")
    case True
    with cnt have mem: "elt \<in># M" by (simp add: count_greater_zero_iff [symmetric] del: count_greater_zero_iff)
    have "\<forall>c. count (M - {#elt#}) c = nat (avail_count fbc (avail(elt \<mapsto> numb - 1)) c)"
    proof
      fix c
      show "count (M - {#elt#}) c = nat (avail_count fbc (avail(elt \<mapsto> numb - 1)) c)"
      proof (cases "c = elt")
        case True
        with cnt show ?thesis by (simp add: avail_count_def)
      next
        case False
        with Cons.prems show ?thesis by (simp add: avail_count_def)
      qed
    qed
    then have "snd (quick_ratio_loop fbc as (avail(elt \<mapsto> numb - 1), matches + 1)) =
        matches + 1 + size (mset as \<inter># (M - {#elt#}))"
      by (rule Cons.IH)
    moreover have "size (mset (elt # as) \<inter># M) = 1 + size (mset as \<inter># (M - {#elt#}))"
      using mem by (simp add: inter_add_left2)
    ultimately show ?thesis
      unfolding step using True by simp
  next
    case False
    with cnt have nmem: "elt \<notin># M" by (simp add: count_eq_zero_iff [symmetric] del: count_eq_zero_iff)
    have "\<forall>c. count M c = nat (avail_count fbc (avail(elt \<mapsto> numb - 1)) c)"
    proof
      fix c
      show "count M c = nat (avail_count fbc (avail(elt \<mapsto> numb - 1)) c)"
      proof (cases "c = elt")
        case True
        with cnt False show ?thesis by (simp add: avail_count_def)
      next
        case False
        with Cons.prems show ?thesis by (simp add: avail_count_def)
      qed
    qed
    then have "snd (quick_ratio_loop fbc as (avail(elt \<mapsto> numb - 1), matches)) =
        matches + size (mset as \<inter># M)"
      by (rule Cons.IH)
    moreover have "size (mset (elt # as) \<inter># M) = size (mset as \<inter># M)"
      using nmem by (simp add: inter_add_left1)
    ultimately show ?thesis
      unfolding step using False by simp
  qed
qed

lemma fullbcount_fold:
  "(case fold (\<lambda>elt m. m(elt \<mapsto> (case m elt of None \<Rightarrow> 0 | Some n \<Rightarrow> n) + 1)) b m c of
      None \<Rightarrow> 0 | Some n \<Rightarrow> n) =
   (case m c of None \<Rightarrow> 0 | Some n \<Rightarrow> n) + int (count (mset b) c)"
  by (induction b arbitrary: m) auto

lemma fullbcount_count: "avail_count (fullbcount b) Map.empty c = int (count (mset b) c)"
  using fullbcount_fold [of b Map.empty c] by (simp add: avail_count_def fullbcount_def)

lemma quick_ratio_matches:
  "snd (quick_ratio_loop (fullbcount b) a (Map.empty, 0)) = size (mset a \<inter># mset b)"
  using quick_ratio_loop_inter [of "mset b" "fullbcount b" Map.empty a 0]
  by (simp add: fullbcount_count)

lemma calculate_ratio_mono:
  assumes "m1 \<le> m2"
  shows "calculate_ratio m1 len \<le> calculate_ratio m2 len"
  using assms by (simp add: calculate_ratio_def divide_right_mono)

lemma ratio_le_quick_ratio: "ratio a b \<le> quick_ratio a b"
  using matches_le_inter [of a b]
  by (simp add: ratio_def quick_ratio_def quick_ratio_matches calculate_ratio_mono
      block_sum_def [symmetric])

lemma quick_ratio_le_real_quick_ratio: "quick_ratio a b \<le> real_quick_ratio a b"
proof -
  have "size (mset a \<inter># mset b) \<le> size (mset a)" "size (mset a \<inter># mset b) \<le> size (mset b)"
    by (rule size_mset_mono, simp)+
  then have "size (mset a \<inter># mset b) \<le> min (length a) (length b)"
    by simp
  then show ?thesis
    by (simp add: quick_ratio_def real_quick_ratio_def quick_ratio_matches calculate_ratio_mono)
qed

lemma close_enough_iff: "close_enough cutoff word x \<longleftrightarrow> cutoff \<le> ratio x word"
  using ratio_le_quick_ratio [of x word] quick_ratio_le_real_quick_ratio [of x word]
  by (auto simp: close_enough_def)

lemma fold_max_greatest:
  "fold (\<lambda>item best. if best < item then item else best) xs x \<in> set (x # xs)
   \<and> (\<forall>y\<in>set (x # xs). y \<le> fold (\<lambda>item best. if best < item then item else best) xs (x::'a::linorder))"
proof (induction xs arbitrary: x)
  case Nil
  then show ?case by simp
next
  case (Cons z zs)
  show ?case
  proof (cases "x < z")
    case True
    with Cons.IH [of z] show ?thesis by auto
  next
    case False
    with Cons.IH [of x] show ?thesis by auto
  qed
qed

lemma py_max_greatest:
  assumes "py_max xs = Some m"
  shows "m \<in> set xs \<and> (\<forall>y\<in>set xs. y \<le> m)"
proof (cases xs)
  case Nil
  with assms show ?thesis by simp
next
  case (Cons x xs')
  with assms fold_max_greatest [of xs' x] show ?thesis by simp
qed

lemma py_max_None: "py_max xs = None \<longleftrightarrow> xs = []"
  by (cases xs) simp_all

lemma get_close_matches_best:
  assumes "x \<in> set poss" and "cutoff \<le> ratio x word"
  shows "\<exists>best. get_close_matches word poss cutoff = [best] \<and> best \<in> set poss
           \<and> cutoff \<le> ratio best word
           \<and> (\<forall>y\<in>set poss. ratio y word < ratio best word
                  \<or> (ratio y word = ratio best word \<and> y \<le> best))"
proof -
  let ?good = "filter (close_enough cutoff word) poss"
  let ?result = "map (\<lambda>x. (ratio x word, x)) ?good"
  from assms have "x \<in> set ?good"
    by (simp add: close_enough_iff)
  then have "?good \<noteq> []" by (metis empty_iff empty_set)
  then have "?result \<noteq> []" by simp
  then obtain m where m: "py_max ?result = Some m"
    using py_max_None [of ?result] by (cases "py_max ?result") auto
  from py_max_greatest [OF m] have mem: "m \<in> set ?result" and max: "\<forall>y\<in>set ?result. y \<le> m"
    by simp_all
  from mem obtain best where best: "m = (ratio best word, best)" "best \<in> set poss"
    "cutoff \<le> ratio best word"
    by (auto simp: close_enough_iff)
  have "\<forall>y\<in>set poss. ratio y word < ratio best word
          \<or> (ratio y word = ratio best word \<and> y \<le> best)"
  proof
    fix y
    assume y: "y \<in> set poss"
    show "ratio y word < ratio best word \<or> (ratio y word = ratio best word \<and> y \<le> best)"
    proof (cases "cutoff \<le> ratio y word")
      case True
      with y have "(ratio y word, y) \<in> set ?result"
        by (simp add: close_enough_iff)
      with max best(1) have "(ratio y word, y) \<le> (ratio best word, best)"
        by blast
      then show ?thesis
        by (auto simp: less_eq_prod_def)
    next
      case False
      with best(3) show ?thesis by simp
    qed
  qed
  with m best show ?thesis
    by (auto simp: get_close_matches_def nlargest1_def)
qed

lemma get_close_matches_none:
  assumes "\<forall>x\<in>set poss. \<not> cutoff \<le> ratio x word"
  shows "get_close_matches word poss cutoff = []"
proof -
  from assms have "filter (close_enough cutoff word) poss = []"
    by (simp add: close_enough_iff filter_empty_conv)
  then show ?thesis
    by (simp add: get_close_matches_def nlargest1_def)
qed

section \<open>The map of the digital texts and the OCR runs\<close>

text \<open>
  \<open>ocr_runs tr\<close> is the number of calls of \<open>ocr_text_from_pdf\<close> in a trace.
  \<open>document_text e ans\<close> is the text that lines 23, 24, 41 and 42 store for a
  location whose request got the answer \<open>ans\<close>: nothing when the request raised,
  the status is an error or the document does not open, and otherwise the page
  texts joined by line feeds.
\<close>

definition is_ocr :: "event \<Rightarrow> bool" where
  "is_ocr ev = (case ev of OcrRun pdf_bytes \<Rightarrow> True | _ \<Rightarrow> False)"

definition ocr_runs :: "event list \<Rightarrow> nat" where
  "ocr_runs tr = length (filter is_ocr tr)"












lemma ocr_runs_append: "ocr_runs (tr @ tr') = ocr_runs tr + ocr_runs tr'"
  by (simp add: ocr_runs_def)




text \<open>The empty identifier, on a row whose text resolves.\<close>

lemma empty_identifier_exact_when_resolved:
  assumes "pdf_data (PDF r) = Some values" and "MPN r = []"
    and "resolve_text e (PDF r) values tr = (tr', Inr t)"
  shows "\<exists>r'. SET_DESC e ord pdf_data r tr = (tr', Inr r')
           \<and> STATUS r' = Some ''Exact'' \<and> EQUIVALENT r' = Some []"
proof -
  have "re_search [] t = Some []"
    by (cases t) simp_all
  moreover have "SET_DESC e ord pdf_data r tr = (tr', Inr (match_values ord (MPN r) t r))"
    using assms(1) assms(3) by (rule SET_DESC_resolved)
  ultimately show ?thesis
    using assms(2) by (simp add: match_values_exact)
qed

section \<open>The tokens around the identifier\<close>

text \<open>
  The whole tokens that a text holds around an identifier, in the words of the
  description of the similars: a slice of the text from offset \<open>s\<close> to offset
  \<open>e\<close> that is delimited by word boundaries on both sides and consists of word
  characters, an occurrence of the identifier up to case, and word characters
  again.  \<open>word_tokens\<close> lists all of them.
\<close>

definition boundary_at :: "string \<Rightarrow> nat \<Rightarrow> bool" where
  "boundary_at t i = at_boundary (prev_at None t i) (drop i t)"

definition is_token :: "string \<Rightarrow> string \<Rightarrow> nat \<Rightarrow> nat \<Rightarrow> bool" where
  "is_token part t s e =
     (s \<le> e \<and> e \<le> length t \<and> boundary_at t s \<and> boundary_at t e
      \<and> list_ex (\<lambda>p. p + length part \<le> e \<and> occurs_at part t p
                     \<and> list_all is_word (slice t s p)
                     \<and> list_all is_word (slice t (p + length part) e))
           [s..<Suc e])"

definition word_tokens :: "string \<Rightarrow> string \<Rightarrow> string list" where
  "word_tokens part t =
     concat (map (\<lambda>s. map (\<lambda>e. slice t s e) (filter (is_token part t s) [s..<Suc (length t)]))
               [0..<Suc (length t)])"

text \<open>
  The same notion seen from a position of the scan; \<open>word_only\<close> says that an
  identifier is not empty and made of word characters.
\<close>

definition tok_here :: "string \<Rightarrow> char option \<Rightarrow> string \<Rightarrow> nat \<Rightarrow> bool" where
  "tok_here part prev rest e =
     (at_boundary prev rest \<and> e \<le> length rest
      \<and> at_boundary (prev_at prev rest e) (drop e rest)
      \<and> (\<exists>k. k + length part \<le> e \<and> match_literal part (drop k rest)
             \<and> list_all is_word (take k rest)
             \<and> list_all is_word (slice rest (k + length part) e)))"

definition word_only :: "string \<Rightarrow> bool" where
  "word_only part = (part \<noteq> [] \<and> list_all is_word part)"

lemma is_word_lower: "is_word (py_lower c) = is_word c"
proof -
  have "of_char (char_of (of_char c + 32 :: nat) :: char) = ((of_char c + 32) mod 256 :: nat)"
    by simp
  then show ?thesis
    by (auto simp: is_word_def py_lower_def Let_def)
qed

lemma prev_at_prev_at:
  assumes "e \<le> length rest"
  shows "prev_at (prev_at prev rest e) (drop e rest) d = prev_at prev rest (e + d)"
  using assms by (auto simp: prev_at_def nth_append)

lemma occurs_at_match_literal:
  "occurs_at part t p \<longleftrightarrow> p \<le> length t \<and> match_literal part (drop p t)"
  by (auto simp: occurs_at_def match_literal_iff)

lemma is_token_tok_here:
  "is_token part t s e \<longleftrightarrow>
     s \<le> e \<and> s \<le> length t \<and> tok_here part (prev_at None t s) (drop s t) (e - s)"
proof (cases "s \<le> e \<and> e \<le> length t")
  case False
  then show ?thesis by (auto simp: is_token_def tok_here_def)
next
  case True
  then have se: "s \<le> e" "e \<le> length t" "s \<le> length t" by simp_all
  have b: "at_boundary (prev_at (prev_at None t s) (drop s t) (e - s)) (drop (e - s) (drop s t))
      = boundary_at t e"
    using se by (simp add: prev_at_prev_at boundary_at_def)
  define A where "A = list_ex (\<lambda>p. p + length part \<le> e \<and> occurs_at part t p
                     \<and> list_all is_word (slice t s p)
                     \<and> list_all is_word (slice t (p + length part) e)) [s..<Suc e]"
  define B where "B = (\<exists>k. k + length part \<le> e - s \<and> match_literal part (drop k (drop s t))
             \<and> list_all is_word (take k (drop s t))
             \<and> list_all is_word (slice (drop s t) (k + length part) (e - s)))"
  have ab: "A \<longleftrightarrow> B"
    unfolding A_def B_def
  proof
    assume "list_ex (\<lambda>p. p + length part \<le> e \<and> occurs_at part t p
                     \<and> list_all is_word (slice t s p)
                     \<and> list_all is_word (slice t (p + length part) e)) [s..<Suc e]"
    then obtain p where p: "s \<le> p" "p \<le> e" "p + length part \<le> e" "occurs_at part t p"
      "list_all is_word (slice t s p)" "list_all is_word (slice t (p + length part) e)"
      by (auto simp: list_ex_iff)
    have "slice (drop s t) (p - s + length part) (e - s) = slice t (p + length part) e"
      using p se by (simp add: slice_def add.commute)
    moreover from p se have "(p - s) + length part \<le> e - s" by arith
    ultimately have "(p - s) + length part \<le> e - s \<and> match_literal part (drop (p - s) (drop s t))
             \<and> list_all is_word (take (p - s) (drop s t))
             \<and> list_all is_word (slice (drop s t) ((p - s) + length part) (e - s))"
      using p se by (simp add: occurs_at_match_literal slice_def)
    then show "\<exists>k. k + length part \<le> e - s \<and> match_literal part (drop k (drop s t))
             \<and> list_all is_word (take k (drop s t))
             \<and> list_all is_word (slice (drop s t) (k + length part) (e - s))" by blast
  next
    assume "\<exists>k. k + length part \<le> e - s \<and> match_literal part (drop k (drop s t))
             \<and> list_all is_word (take k (drop s t))
             \<and> list_all is_word (slice (drop s t) (k + length part) (e - s))"
    then obtain k where k: "k + length part \<le> e - s" "match_literal part (drop k (drop s t))"
      "list_all is_word (take k (drop s t))"
      "list_all is_word (slice (drop s t) (k + length part) (e - s))"
      by blast
    have "slice (drop s t) (k + length part) (e - s) = slice t (s + k + length part) e"
      using k se by (simp add: slice_def add.commute add.left_commute)
    moreover from k(1) se have "s + k \<le> e" "(s + k) + length part \<le> e" "s + k \<le> length t"
      by arith+
    ultimately have "(s + k) + length part \<le> e \<and> occurs_at part t (s + k)
        \<and> list_all is_word (slice t s (s + k))
        \<and> list_all is_word (slice t ((s + k) + length part) e)"
      using k by (simp add: occurs_at_match_literal slice_def add.commute)
    moreover from k(1) se have "s + k \<in> set [s..<Suc e]"
      by simp arith
    ultimately have "s + k \<in> set [s..<Suc e] \<and> (s + k) + length part \<le> e \<and> occurs_at part t (s + k)
        \<and> list_all is_word (slice t s (s + k))
        \<and> list_all is_word (slice t ((s + k) + length part) e)"
      by blast
    then show "list_ex (\<lambda>p. p + length part \<le> e \<and> occurs_at part t p
                     \<and> list_all is_word (slice t s p)
                     \<and> list_all is_word (slice t (p + length part) e)) [s..<Suc e]"
      unfolding list_ex_iff by blast
  qed
  have 1: "is_token part t s e \<longleftrightarrow> boundary_at t s \<and> boundary_at t e \<and> A"
    unfolding is_token_def A_def using se by blast
  have "e - s \<le> length (drop s t)"
    using se by simp
  then have 2: "tok_here part (prev_at None t s) (drop s t) (e - s) \<longleftrightarrow>
      boundary_at t s \<and> boundary_at t e \<and> B"
    unfolding tok_here_def B_def b boundary_at_def [of t s] by blast
  from 1 2 ab se show ?thesis by blast
qed

lemma is_token_bounds: "is_token part t s e \<Longrightarrow> s \<le> e \<and> e \<le> length t"
  unfolding is_token_def by blast

lemma word_tokens_iff:
  "m \<in> set (word_tokens part t) \<longleftrightarrow> (\<exists>s e. is_token part t s e \<and> m = slice t s e)"
proof
  assume "m \<in> set (word_tokens part t)"
  then show "\<exists>s e. is_token part t s e \<and> m = slice t s e"
    by (auto simp: word_tokens_def simp del: upt_Suc)
next
  assume "\<exists>s e. is_token part t s e \<and> m = slice t s e"
  then obtain s e where t: "is_token part t s e" "m = slice t s e"
    by blast
  from is_token_bounds [OF t(1)] have "s \<in> set [0..<Suc (length t)]"
    "e \<in> set [s..<Suc (length t)]"
    by (simp_all del: upt_Suc)
  with t show "m \<in> set (word_tokens part t)"
    by (auto simp: word_tokens_def simp del: upt_Suc)
qed


lemma take_takeWhile_all:
  assumes "k \<le> length (takeWhile P xs)"
  shows "list_all P (take k xs)"
proof -
  have "take k xs = take k (takeWhile P xs @ dropWhile P xs)"
    by simp
  also have "\<dots> = take k (takeWhile P xs)"
    using assms by (simp del: takeWhile_dropWhile_id)
  finally have "set (take k xs) \<subseteq> set (takeWhile P xs)"
    by (simp add: set_take_subset)
  then show ?thesis
    by (auto simp: list_all_iff dest: set_takeWhileD)
qed

lemma match_tail_sound:
  assumes "match_tail part prev rest adv k = Some e" and "k \<le> length (takeWhile is_word rest)"
  shows "e \<le> length rest \<and> at_boundary (prev_at prev rest e) (drop e rest)
     \<and> k + length part \<le> e \<and> match_literal part (drop k rest)
     \<and> list_all is_word (take k rest)
     \<and> list_all is_word (slice rest (k + length part) e)"
proof -
  from assms(1) have lit: "match_literal part (drop k rest)"
    by (auto simp: match_tail_def split: if_splits)
  from assms(2) have kl: "k \<le> length rest"
    using length_takeWhile_le [of is_word rest] by simp
  from assms(1) lit obtain m where
    m: "m \<in> set (down_from (length (takeWhile is_word (drop (k + length part) rest))))"
    and e: "(if at_boundary (prev_at prev rest (k + length part + m)) (drop (k + length part + m) rest)
                \<and> (adv \<longrightarrow> 0 < k + length part + m)
             then Some (k + length part + m) else None) = Some e"
    by (auto simp: match_tail_def Let_def dest!: first_some_SomeD)
  from e have e': "e = k + length part + m"
    "at_boundary (prev_at prev rest e) (drop e rest)"
    by (auto split: if_splits)
  from m have ml: "m \<le> length (takeWhile is_word (drop (k + length part) rest))"
    by (simp add: set_down_from)
  then have "list_all is_word (take m (drop (k + length part) rest))"
    by (rule take_takeWhile_all)
  then have w2: "list_all is_word (slice rest (k + length part) e)"
    by (simp add: slice_def e')
  from match_tail_bounds [OF assms(1) kl] have "e \<le> length rest" "k + length part \<le> e"
    by simp_all
  with e' lit w2 take_takeWhile_all [OF assms(2)] show ?thesis
    by simp
qed

lemma match_here_sound:
  assumes "match_here part prev rest adv = Some e"
  shows "tok_here part prev rest e"
proof -
  from assms have b: "at_boundary prev rest"
    by (auto simp: match_here_def split: if_splits)
  from assms obtain k where
    k: "k \<in> set (down_from (length (takeWhile is_word rest)))"
    and t: "match_tail part prev rest adv k = Some e"
    by (auto simp: match_here_def split: if_splits dest!: first_some_SomeD)
  from k have "k \<le> length (takeWhile is_word rest)"
    by (simp add: set_down_from)
  from match_tail_sound [OF t this] b show ?thesis
    unfolding tok_here_def by blast
qed

lemma findall_from_sound:
  "m \<in> set (findall_from part prev rest adv) \<Longrightarrow>
     \<exists>d e. d \<le> length rest \<and> tok_here part (prev_at prev rest d) (drop d rest) e
       \<and> m = take e (drop d rest)"
proof (induction part prev rest adv rule: findall_from.induct)
  case (1 part prev rest adv)
  from "1.prems" have unf: "m \<in> set (case match_here part prev rest adv of
        Some e \<Rightarrow>
          take e rest #
            (if e = 0 then findall_from part prev rest True
             else findall_from part (Some (rest ! (e - 1))) (drop e rest) False)
      | None \<Rightarrow>
          (case rest of
             [] \<Rightarrow> []
           | c # cs \<Rightarrow> findall_from part (Some c) cs False))"
    by (subst (asm) findall_from.simps) simp
  show ?case
  proof (cases "match_here part prev rest adv")
    case None
    show ?thesis
    proof (cases rest)
      case Nil
      with None unf show ?thesis
        by simp
    next
      case (Cons c cs)
      with None unf have "m \<in> set (findall_from part (Some c) cs False)"
        by simp
      from "1.IH"(1) [OF None Cons this] obtain d e where
        de: "d \<le> length cs" "tok_here part (prev_at (Some c) cs d) (drop d cs) e"
        "m = take e (drop d cs)"
        by blast
      have "prev_at (Some c) cs d = prev_at prev rest (Suc d)"
        using Cons by (cases d) (simp_all add: prev_at_def)
      with de Cons have "Suc d \<le> length rest
          \<and> tok_here part (prev_at prev rest (Suc d)) (drop (Suc d) rest) e
          \<and> m = take e (drop (Suc d) rest)"
        by simp
      then show ?thesis by blast
    qed
  next
    case (Some e0)
    from match_here_bounds [OF Some] have e0: "e0 \<le> length rest" by simp
    from match_here_sound [OF Some] have tok: "tok_here part prev rest e0" .
    from Some unf have m: "m = take e0 rest
        \<or> (e0 = 0 \<and> m \<in> set (findall_from part prev rest True))
        \<or> (e0 \<noteq> 0 \<and> m \<in> set (findall_from part (Some (rest ! (e0 - 1))) (drop e0 rest) False))"
      by (auto split: if_splits)
    show ?thesis
    proof (cases "m = take e0 rest")
      case True
      with tok have "0 \<le> length rest \<and> tok_here part (prev_at prev rest 0) (drop 0 rest) e0
          \<and> m = take e0 (drop 0 rest)"
        by (simp add: prev_at_def)
      then show ?thesis by blast
    next
      case False
      show ?thesis
      proof (cases "e0 = 0")
        case True
        with m False have "m \<in> set (findall_from part prev rest True)" by simp
        from "1.IH"(2) [OF Some True this] show ?thesis .
      next
        case ne: False
        with m False have "m \<in> set (findall_from part (Some (rest ! (e0 - 1))) (drop e0 rest) False)"
          by simp
        from "1.IH"(3) [OF Some ne this] obtain d e where
          de: "d \<le> length (drop e0 rest)"
          "tok_here part (prev_at (Some (rest ! (e0 - 1))) (drop e0 rest) d) (drop d (drop e0 rest)) e"
          "m = take e (drop d (drop e0 rest))"
          by blast
        have "Some (rest ! (e0 - 1)) = prev_at prev rest e0"
          using ne by (simp add: prev_at_def)
        with prev_at_prev_at [OF e0, of prev d]
        have "prev_at (Some (rest ! (e0 - 1))) (drop e0 rest) d = prev_at prev rest (e0 + d)"
          by simp
        with de e0 have "e0 + d \<le> length rest
            \<and> tok_here part (prev_at prev rest (e0 + d)) (drop (e0 + d) rest) e
            \<and> m = take e (drop (e0 + d) rest)"
          by (simp add: add.commute)
        then show ?thesis by blast
      qed
    qed
  qed
qed

lemma re_findall_sound:
  assumes "m \<in> set (re_findall part t)"
  shows "m \<in> set (word_tokens part t)"
proof -
  from findall_from_sound [OF assms [unfolded re_findall_def]] obtain d e where
    de: "d \<le> length t" "tok_here part (prev_at None t d) (drop d t) e" "m = take e (drop d t)"
    by blast
  then have "is_token part t d (d + e)"
    by (simp add: is_token_tok_here)
  moreover have "m = slice t d (d + e)"
    using de(3) by (simp add: slice_def)
  ultimately show ?thesis
    unfolding word_tokens_iff by blast
qed

lemma is_word_same_lower: "py_lower c = py_lower p \<Longrightarrow> is_word c = is_word p"
  by (metis is_word_lower)

lemma match_literal_word:
  assumes "list_all is_word part" and "match_literal part u"
  shows "list_all is_word (take (length part) u)"
  using assms
proof (induction part u rule: match_literal.induct)
  case (3 p ps c cs)
  then show ?case by (auto dest: is_word_same_lower)
qed simp_all

lemma takeWhile_nth_holds:
  assumes "i < length (takeWhile P xs)"
  shows "P (xs ! i)"
proof -
  from assms have "takeWhile P xs ! i \<in> set (takeWhile P xs)"
    by (rule nth_mem)
  then have "P (takeWhile P xs ! i)"
    by (rule set_takeWhileD [THEN conjunct2])
  with assms show ?thesis
    by (simp add: takeWhile_nth)
qed

lemma takeWhile_eq_take:
  assumes "list_all P (take e xs)" and "e \<le> length xs"
    and "e < length xs \<longrightarrow> \<not> P (xs ! e)"
  shows "takeWhile P xs = take e xs"
proof -
  have "takeWhile P xs = takeWhile P (take e xs @ drop e xs)"
    by simp
  also have "\<dots> = take e xs @ takeWhile P (drop e xs)"
    using assms(1) by (simp add: list_all_iff del: append_take_drop_id)
  also have "takeWhile P (drop e xs) = []"
  proof (cases "e < length xs")
    case True
    with assms(3) have "\<not> P (hd (drop e xs))"
      by (simp add: hd_drop_conv_nth)
    moreover from True have "drop e xs \<noteq> []" by simp
    ultimately show ?thesis
      by (cases "drop e xs") simp_all
  next
    case False
    then show ?thesis by simp
  qed
  finally show ?thesis by simp
qed

lemma at_boundary_after_word:
  assumes "0 < e" and "e \<le> length rest" and "is_word (rest ! (e - 1))"
  shows "at_boundary (prev_at prev rest e) (drop e rest) \<longleftrightarrow> (e < length rest \<longrightarrow> \<not> is_word (rest ! e))"
proof (cases "e < length rest")
  case True
  then have "drop e rest = rest ! e # drop (Suc e) rest"
    by (simp add: Cons_nth_drop_Suc)
  with assms True show ?thesis
    by (simp add: at_boundary_def prev_at_def word_opt_def head_opt_def)
next
  case False
  with assms show ?thesis
    by (simp add: at_boundary_def prev_at_def word_opt_def head_opt_def)
qed

lemma tok_here_word_only:
  assumes "word_only part" and "tok_here part prev rest e"
  shows "takeWhile is_word rest = take e rest" and "e = length (takeWhile is_word rest)"
    and "0 < e" and "\<not> word_opt prev"
proof -
  from assms(2) obtain k where
    b0: "at_boundary prev rest" and el: "e \<le> length rest"
    and be: "at_boundary (prev_at prev rest e) (drop e rest)"
    and k: "k + length part \<le> e" "match_literal part (drop k rest)"
    "list_all is_word (take k rest)" "list_all is_word (slice rest (k + length part) e)"
    unfolding tok_here_def by blast
  from assms(1) have n: "0 < length part" and pw: "list_all is_word part"
    by (simp_all add: word_only_def)
  from n k(1) show e0: "0 < e" by arith
  have occ: "list_all is_word (take (length part) (drop k rest))"
    using pw k(2) by (rule match_literal_word)
  have "take e rest = take k rest @ take (length part) (drop k rest)
      @ take (e - (k + length part)) (drop (k + length part) rest)"
  proof -
    from k(1) have "e = k + (length part + (e - (k + length part)))" by simp
    then have "take e rest = take (k + (length part + (e - (k + length part)))) rest"
      by simp
    also have "\<dots> = take k rest @ take (length part) (drop k rest)
      @ take (e - (k + length part)) (drop (k + length part) rest)"
      by (simp only: take_add drop_drop add.commute)
    finally show ?thesis .
  qed
  with k(3) occ k(4) have allw: "list_all is_word (take e rest)"
    by (simp add: slice_def)
  from allw e0 el have last_w: "is_word (rest ! (e - 1))"
    by (simp add: list_all_length)
  from be at_boundary_after_word [OF e0 el last_w, of prev]
  have stop: "e < length rest \<longrightarrow> \<not> is_word (rest ! e)"
    by simp
  from allw el stop show tw: "takeWhile is_word rest = take e rest"
    by (rule takeWhile_eq_take)
  from tw el show "e = length (takeWhile is_word rest)"
    by simp
  from allw e0 el have "is_word (rest ! 0)"
    by (simp add: list_all_length)
  moreover from e0 el have "rest \<noteq> []" by auto
  ultimately have "word_opt (head_opt rest)"
    by (cases rest) (simp_all add: word_opt_def head_opt_def)
  with b0 show "\<not> word_opt prev"
    by (simp add: at_boundary_def)
qed


lemma first_some_const:
  assumes "\<forall>x\<in>set xs. f x = None \<or> f x = Some y" and "\<exists>x\<in>set xs. f x = Some y"
  shows "first_some f xs = Some y"
  using assms by (induction xs) (auto split: option.splits)

lemma down_from_Cons: "down_from v = v # (if v = 0 then [] else down_from (v - 1))"
  by (cases v) (simp_all add: down_from_def)

lemma takeWhile_drop:
  assumes "q \<le> length (takeWhile P xs)"
  shows "length (takeWhile P (drop q xs)) = length (takeWhile P xs) - q"
proof -
  have x: "xs = takeWhile P xs @ dropWhile P xs" by simp
  have "drop q xs = drop q (takeWhile P xs) @ dropWhile P xs"
    using assms by (subst x) (simp del: takeWhile_dropWhile_id)
  moreover have "\<forall>c\<in>set (drop q (takeWhile P xs)). P c"
    by (auto dest: in_set_dropD set_takeWhileD)
  moreover have "takeWhile P (dropWhile P xs) = []"
  proof (cases "dropWhile P xs")
    case Nil
    show ?thesis by (simp only: Nil takeWhile.simps)
  next
    case (Cons a as)
    then have "dropWhile P xs \<noteq> []" by simp
    from hd_dropWhile [OF this] Cons have "\<not> P a" by simp
    with Cons show ?thesis by simp
  qed
  ultimately have "takeWhile P (drop q xs) = drop q (takeWhile P xs)"
    by (simp add: takeWhile_append2)
  then show ?thesis by simp
qed

lemma match_tail_word_only:
  assumes "word_only part" and "tok_here part prev rest e" and "k \<le> e"
    and "match_literal part (drop k rest)"
  shows "match_tail part prev rest adv k = Some e"
proof -
  note w = tok_here_word_only [OF assms(1) assms(2)]
  from assms(2) have el: "e \<le> length rest"
    and be: "at_boundary (prev_at prev rest e) (drop e rest)"
    unfolding tok_here_def by blast+
  from assms(1) have pw: "list_all is_word part" and n: "0 < length part"
    by (simp_all add: word_only_def)
  have occ: "list_all is_word (take (length part) (drop k rest))"
    using pw assms(4) by (rule match_literal_word)
  from match_literal_length [OF assms(4)] have nl: "length part \<le> length rest - k"
    by simp
  have q: "k + length part \<le> e"
  proof (rule ccontr)
    assume "\<not> k + length part \<le> e"
    then have lt: "e < k + length part" by simp
    with nl assms(3) have e_lt: "e < length rest" by arith
    from lt assms(3) have i: "e - k < length part" by arith
    from occ i nl have "is_word (take (length part) (drop k rest) ! (e - k))"
      by (simp add: list_all_length)
    with i assms(3) e_lt have "is_word (rest ! e)"
      by simp
    moreover have "\<not> is_word (rest ! e)"
    proof -
      from w(2) e_lt have "length (takeWhile is_word rest) < length rest" by simp
      from nth_length_takeWhile [OF this] w(2) show ?thesis by simp
    qed
    ultimately show False by simp
  qed
  let ?q = "k + length part"
  let ?v = "length (takeWhile is_word (drop ?q rest))"
  from q w(2) have "?q \<le> length (takeWhile is_word rest)" by simp
  from takeWhile_drop [OF this] w(2) have v: "?v = e - ?q" by simp
  with q have qv: "?q + ?v = e" by simp
  let ?f = "\<lambda>m. if at_boundary (prev_at prev rest (?q + m)) (drop (?q + m) rest)
                          \<and> (adv \<longrightarrow> 0 < ?q + m)
                       then Some (?q + m) else None"
  from be w(3) qv have "?f ?v = Some e" by simp
  then have "first_some ?f (down_from ?v) = Some e"
    by (subst down_from_Cons) simp
  with assms(4) show ?thesis
    by (simp add: match_tail_def Let_def)
qed

lemma match_here_word_only:
  assumes "word_only part" and "tok_here part prev rest e"
  shows "match_here part prev rest adv = Some e"
proof -
  note w = tok_here_word_only [OF assms]
  from assms(2) obtain k where
    b0: "at_boundary prev rest"
    and k: "k + length part \<le> e" "match_literal part (drop k rest)"
    unfolding tok_here_def by blast
  have all: "\<forall>k'\<in>set (down_from e). match_tail part prev rest adv k' = None
      \<or> match_tail part prev rest adv k' = Some e"
  proof
    fix k'
    assume "k' \<in> set (down_from e)"
    then have le: "k' \<le> e" by (simp add: set_down_from)
    show "match_tail part prev rest adv k' = None \<or> match_tail part prev rest adv k' = Some e"
    proof (cases "match_literal part (drop k' rest)")
      case True
      from match_tail_word_only [OF assms le True] show ?thesis by simp
    next
      case False
      then show ?thesis by (simp add: match_tail_def)
    qed
  qed
  from k(1) have ke: "k \<le> e" by simp
  then have "k \<in> set (down_from e)" by (simp add: set_down_from)
  moreover have "match_tail part prev rest adv k = Some e"
    using assms ke k(2) by (rule match_tail_word_only)
  ultimately have ex: "\<exists>k'\<in>set (down_from e). match_tail part prev rest adv k' = Some e"
    by blast
  from first_some_const [OF all ex] b0 w(2) show ?thesis
    by (simp add: match_here_def)
qed


lemma findall_from_complete:
  "word_only part \<Longrightarrow> d \<le> length rest \<Longrightarrow> tok_here part (prev_at prev rest d) (drop d rest) e \<Longrightarrow>
     take e (drop d rest) \<in> set (findall_from part prev rest adv)"
proof (induction part prev rest adv arbitrary: d rule: findall_from.induct)
  case (1 part prev rest adv)
  note wo = "1.prems"(1)
  have unf: "findall_from part prev rest adv = (case match_here part prev rest adv of
        Some e \<Rightarrow>
          take e rest #
            (if e = 0 then findall_from part prev rest True
             else findall_from part (Some (rest ! (e - 1))) (drop e rest) False)
      | None \<Rightarrow>
          (case rest of
             [] \<Rightarrow> []
           | c # cs \<Rightarrow> findall_from part (Some c) cs False))"
    by (rule findall_from.simps)
  note tw = tok_here_word_only [OF wo "1.prems"(3)]
  show ?case
  proof (cases "match_here part prev rest adv")
    case None
    show ?thesis
    proof (cases d)
      case 0
      with "1.prems"(3) have "tok_here part prev rest e"
        by (simp add: prev_at_def)
      from match_here_word_only [OF wo this, of adv] None show ?thesis by simp
    next
      case (Suc d')
      with "1.prems"(2) obtain c cs where rest: "rest = c # cs"
        by (cases rest) auto
      have p: "prev_at (Some c) cs d' = prev_at prev rest (Suc d')"
        using rest by (cases d') (simp_all add: prev_at_def)
      from "1.prems"(2,3) Suc rest p have "d' \<le> length cs"
        "tok_here part (prev_at (Some c) cs d') (drop d' cs) e"
        by simp_all
      from "1.IH"(1) [OF None rest wo this]
      have "take e (drop d' cs) \<in> set (findall_from part (Some c) cs False)" .
      moreover have "findall_from part prev rest adv = findall_from part (Some c) cs False"
        unfolding unf using None rest by simp
      ultimately show ?thesis
        using rest Suc by simp
    qed
  next
    case (Some e0)
    from match_here_bounds [OF Some] have e0l: "e0 \<le> length rest" by simp
    from match_here_sound [OF Some] have tok0: "tok_here part prev rest e0" .
    note w0 = tok_here_word_only [OF wo tok0]
    from w0(3) have ne: "e0 \<noteq> 0" by simp
    have u: "findall_from part prev rest adv =
        take e0 rest # findall_from part (Some (rest ! (e0 - 1))) (drop e0 rest) False"
      unfolding unf using Some ne by simp
    show ?thesis
    proof (cases "d = 0")
      case True
      with "1.prems"(3) have "tok_here part prev rest e"
        by (simp add: prev_at_def)
      from tok_here_word_only(2) [OF wo this] w0(2) have "e = e0" by simp
      with True u show ?thesis by simp
    next
      case dpos: False
      show ?thesis
      proof (cases "d < e0")
        case True
        with dpos w0(2) have "d - 1 < length (takeWhile is_word rest)" by simp
        then have "is_word (rest ! (d - 1))"
          by (rule takeWhile_nth_holds)
        with dpos have "word_opt (prev_at prev rest d)"
          by (simp add: prev_at_def word_opt_def)
        with tw(4) show ?thesis by simp
      next
        case False
        then have de: "d = e0 + (d - e0)" by simp
        have "Some (rest ! (e0 - 1)) = prev_at prev rest e0"
          using ne by (simp add: prev_at_def)
        with prev_at_prev_at [OF e0l, of prev "d - e0"] de
        have p: "prev_at (Some (rest ! (e0 - 1))) (drop e0 rest) (d - e0) = prev_at prev rest d"
          by simp
        have dd: "drop (d - e0) (drop e0 rest) = drop d rest"
          using False by simp
        from "1.prems"(2,3) False p dd have "d - e0 \<le> length (drop e0 rest)"
          "tok_here part (prev_at (Some (rest ! (e0 - 1))) (drop e0 rest) (d - e0))
             (drop (d - e0) (drop e0 rest)) e"
          by simp_all
        from "1.IH"(3) [OF Some ne wo this]
        have "take e (drop (d - e0) (drop e0 rest))
            \<in> set (findall_from part (Some (rest ! (e0 - 1))) (drop e0 rest) False)" .
        with dd u show ?thesis by simp
      qed
    qed
  qed
qed

lemma re_findall_complete:
  assumes "word_only part" and "m \<in> set (word_tokens part t)"
  shows "m \<in> set (re_findall part t)"
proof -
  from assms(2) obtain s e where se: "is_token part t s e" "m = slice t s e"
    unfolding word_tokens_iff by blast
  from se(1) have "s \<le> e" "s \<le> length t" "tok_here part (prev_at None t s) (drop s t) (e - s)"
    by (simp_all add: is_token_tok_here)
  from findall_from_complete [OF assms(1) this(2) this(3), of False] se(2)
  show ?thesis
    by (simp add: re_findall_def slice_def)
qed

lemma is_word_not_space: "is_word c \<Longrightarrow> \<not> is_space c"
  by (auto simp: is_word_def is_space_def Let_def)

lemma py_strip_no_space:
  assumes "list_all (\<lambda>c. \<not> is_space c) s"
  shows "py_strip s = s"
proof -
  from assms have "dropWhile is_space s = s"
    by (cases s) simp_all
  moreover from assms have "dropWhile is_space (rev s) = rev s"
    by (cases "rev s") (auto simp: list_all_iff)
  ultimately show ?thesis
    by (simp add: py_strip_def)
qed

lemma word_token_no_space:
  assumes "word_only part" and "m \<in> set (word_tokens part t)"
  shows "py_strip m = m"
proof -
  from assms(2) obtain s e where se: "is_token part t s e" "m = slice t s e"
    unfolding word_tokens_iff by blast
  from se(1) have "tok_here part (prev_at None t s) (drop s t) (e - s)"
    by (simp add: is_token_tok_here)
  from tok_here_word_only(1) [OF assms(1) this] se(2)
  have "m = takeWhile is_word (drop s t)"
    by (simp add: slice_def)
  then have "list_all is_word m"
    by (auto simp: list_all_iff dest: set_takeWhileD)
  then have "list_all (\<lambda>c. \<not> is_space c) m"
    by (auto simp: list_all_iff dest: is_word_not_space)
  then show ?thesis
    by (rule py_strip_no_space)
qed

lemma similars_word_only:
  assumes "word_only part"
  shows "py_strip ` set (re_findall part t) = set (word_tokens part t)"
proof -
  have eq: "set (re_findall part t) = set (word_tokens part t)"
    using re_findall_sound re_findall_complete [OF assms] by blast
  have "py_strip ` set (word_tokens part t) = set (word_tokens part t)"
  proof -
    have "\<forall>m\<in>set (word_tokens part t). py_strip m = m"
      using word_token_no_space [OF assms] by blast
    then show ?thesis by force
  qed
  with eq show ?thesis by simp
qed

section \<open>Example inputs\<close>

text \<open>
  An environment in which every request is answered and the OCR reads one page,
  a map with one scanned document (its digital text is shorter than the
  threshold), and two rows.
\<close>

definition env_ok :: env where
  "env_ok = \<lparr>net = (\<lambda>n url timeout. Response 200 ''%PDF''),
             fitz_text = (\<lambda>content. Some [''Rev2 ABC-123 datasheet'']),
             reader_ok = True,
             ocr_read = (\<lambda>content. Some [[''Rev2'', ''abc-123x'', ''datasheet'']])\<rparr>"

definition row0 :: row where
  "row0 = \<lparr>MPN = ''ABC-123'', PDF = ''http://h/a.pdf'', STATUS = None, EQUIVALENT = None, SIMILARS = None\<rparr>"

definition row_empty :: row where
  "row_empty = \<lparr>MPN = [], PDF = ''http://h/a.pdf'', STATUS = None, EQUIVALENT = None, SIMILARS = None\<rparr>"

definition map_scan :: "string \<rightharpoonup> string" where
  "map_scan = [''http://h/a.pdf'' \<mapsto> ''scan'']"

text \<open>
  An environment whose network answers the first request and raises on every
  later one: the fetch that builds the map succeeds, the fetch for the OCR fails.
\<close>

definition env_net_down :: env where
  "env_net_down = \<lparr>net = (\<lambda>n url timeout. if n = 0 then Response 200 ''%PDF'' else Raised),
             fitz_text = (\<lambda>content. Some [''scan'']),
             reader_ok = True,
             ocr_read = (\<lambda>content. Some [[''Rev2'', ''abc-123x'', ''datasheet'']])\<rparr>"

text \<open>An OCR result with two tokens that are equally close to the identifier \<open>abcd\<close>.\<close>

definition env_tie :: env where
  "env_tie = \<lparr>net = (\<lambda>n url timeout. Response 200 ''%PDF''),
              fitz_text = (\<lambda>content. Some [[]]),
              reader_ok = True,
              ocr_read = (\<lambda>content. Some [[''abcx'', ''abcy'']])\<rparr>"

definition row_tie :: row where
  "row_tie = \<lparr>MPN = ''abcd'', PDF = ''http://h/a.pdf'', STATUS = None, EQUIVALENT = None, SIMILARS = None\<rparr>"


section \<open>The claims\<close>

text \<open>
  C3.  A row whose location has no entry in the extraction map gets the status
  \<open>May be Broken\<close>, whatever its identifier is, and its equivalent and similars
  stay unset.  The statement is about the table that \<open>PN_Validation_New\<close>
  returns, at the index of the row.
\<close>

theorem unavailable_when_not_in_map:
  assumes "i < length data" and "pdf_data (PDF (data ! i)) = None"
  shows "snd (PN_Validation_New e ord pdf_data data tr) ! i =
           (data ! i)\<lparr>STATUS := Some ''May be Broken'', EQUIVALENT := None, SIMILARS := None\<rparr>"
proof -
  let ?rs = "map (\<lambda>r. r\<lparr>STATUS := None, EQUIVALENT := None, SIMILARS := None\<rparr>) data"
  from assms(1) have i: "i < length ?rs" by simp
  from set_desc_all_nth [OF i, of e ord pdf_data tr] obtain tr_i where
    n: "snd (set_desc_all e ord pdf_data ?rs tr) ! i =
         (case snd (SET_DESC e ord pdf_data (?rs ! i) tr_i) of Inl err \<Rightarrow> ?rs ! i | Inr r' \<Rightarrow> r')"
    by blast
  from assms have "pdf_data (PDF (?rs ! i)) = None" by simp
  then have "SET_DESC e ord pdf_data (?rs ! i) tr_i =
      (tr_i, Inr ((?rs ! i)\<lparr>STATUS := Some ''May be Broken''\<rparr>))"
    by (rule SET_DESC_missing)
  with n assms(1) show ?thesis
    by (simp add: PN_Validation_New_def)
qed

theorem unavailable_when_not_in_map_witness:
  "(0::nat) < length [row0] \<and> Map.empty (PDF ([row0] ! 0)) = (None :: string option)
   \<and> snd (PN_Validation_New env_ok remdups Map.empty [row0] []) ! 0 =
       row0\<lparr>STATUS := Some ''May be Broken'', EQUIVALENT := None, SIMILARS := None\<rparr>"
  using unavailable_when_not_in_map [of 0 "[row0]" Map.empty env_ok remdups "[]"]
  by simp

text \<open>
  C10 (evaluated where it fails).  The location has an entry in the map and the
  identifier is the empty string, so the row should be \<open>Exact\<close> with the empty
  string as its equivalent.  The digital text has four characters; the request
  for the OCR bytes raises, \<open>SET_DESC\<close> ends with that exception before the
  search is run, and the run returns the row with no status and no equivalent.
\<close>

theorem empty_identifier_left_unset:
  "map_scan (PDF row_empty) = Some ''scan'' \<and> MPN row_empty = []
   \<and> SET_DESC env_net_down remdups map_scan row_empty [HttpGet ''http://h/a.pdf'' (Some 10)] =
       ([HttpGet ''http://h/a.pdf'' (Some 10), HttpGet ''http://h/a.pdf'' None], Inl RequestError)
   \<and> map (\<lambda>r. (STATUS r, EQUIVALENT r)) (snd (validate env_net_down remdups [row_empty])) =
       [(None, None)]"
  by code_simp

text \<open>
  C1.  When the text a row resolves to contains the identifier up to case, the
  row is \<open>Exact\<close> and its equivalent is the slice of the text at the first
  occurrence, in the casing of the text.
\<close>

theorem exact_match_original_casing:
  assumes "pdf_data (PDF r) = Some values"
    and "resolve_text e (PDF r) values tr = (tr', Inr t)"
    and "occurs_at (MPN r) t i"
  shows "\<exists>r' j. SET_DESC e ord pdf_data r tr = (tr', Inr r')
           \<and> STATUS r' = Some ''Exact''
           \<and> j \<le> i \<and> occurs_at (MPN r) t j \<and> (\<forall>j'<j. \<not> occurs_at (MPN r) t j')
           \<and> EQUIVALENT r' = Some (take (length (MPN r)) (drop j t))"
proof -
  from re_search_first [OF assms(3)] obtain j where
    j: "j \<le> i" "occurs_at (MPN r) t j" "\<forall>j'<j. \<not> occurs_at (MPN r) t j'"
    "re_search (MPN r) t = Some (take (length (MPN r)) (drop j t))"
    by blast
  have "SET_DESC e ord pdf_data r tr = (tr', Inr (match_values ord (MPN r) t r))"
    using assms(1) assms(2) by (rule SET_DESC_resolved)
  with match_values_exact [OF j(4)] j(1-3)
  show ?thesis by auto
qed

theorem exact_match_original_casing_witness:
  "map_scan (PDF row0) = Some ''scan''
   \<and> resolve_text env_ok (PDF row0) ''scan'' [] =
        ([HttpGet ''http://h/a.pdf'' None, OcrRun ''%PDF''], Inr ''Rev2 abc-123x datasheet'')
   \<and> occurs_at (MPN row0) ''Rev2 abc-123x datasheet'' 5
   \<and> (\<exists>r' j. SET_DESC env_ok remdups map_scan row0 [] =
              ([HttpGet ''http://h/a.pdf'' None, OcrRun ''%PDF''], Inr r')
            \<and> STATUS r' = Some ''Exact''
            \<and> j \<le> 5 \<and> occurs_at (MPN row0) ''Rev2 abc-123x datasheet'' j
            \<and> (\<forall>j'<j. \<not> occurs_at (MPN row0) ''Rev2 abc-123x datasheet'' j')
            \<and> EQUIVALENT r' = Some (take (length (MPN row0)) (drop j ''Rev2 abc-123x datasheet'')))"
proof -
  have h1: "map_scan (PDF row0) = Some ''scan''"
    by (simp add: map_scan_def row0_def)
  have h2: "resolve_text env_ok (PDF row0) ''scan'' [] =
        ([HttpGet ''http://h/a.pdf'' None, OcrRun ''%PDF''], Inr ''Rev2 abc-123x datasheet'')"
    by code_simp
  have h3: "occurs_at (MPN row0) ''Rev2 abc-123x datasheet'' 5"
    by code_simp
  from exact_match_original_casing [where pdf_data = map_scan and r = row0 and ord = remdups,
      OF h1 h2 h3] h1 h2 h3
  show ?thesis by blast
qed

text \<open>
  C4 (evaluated where it fails).  The digital text of the location has four
  characters, so the OCR is due; the request that should bring the bytes for it
  raises, \<open>SET_DESC\<close> ends with that exception and the trace holds no OCR run.
\<close>

theorem ocr_skipped_when_refetch_raises:
  "map_scan (PDF row0) = Some ''scan'' \<and> length ''scan'' \<le> 100
   \<and> SET_DESC env_net_down remdups map_scan row0 [HttpGet ''http://h/a.pdf'' (Some 10)] =
       ([HttpGet ''http://h/a.pdf'' (Some 10), HttpGet ''http://h/a.pdf'' None], Inl RequestError)"
  by code_simp




text \<open>
  C6 (evaluated where it fails).  The request for the OCR raises inside the
  worker of the row; nobody reads the worker's result, and the row comes back
  with no status at all.
\<close>

theorem row_left_without_status:
  "map STATUS (snd (validate env_net_down remdups [row0])) = [None]"
  by code_simp

text \<open>
  C8 (evaluated where it fails).  The second request of the run, the one for the
  OCR, carries no timeout; it raises, nothing is printed, and the location is
  still in the map of the successfully extracted texts.
\<close>

theorem refetch_without_timeout:
  "fst (validate env_net_down remdups [row0]) =
     [HttpGet ''http://h/a.pdf'' (Some 10), HttpGet ''http://h/a.pdf'' None]
   \<and> snd (GetPDFText env_net_down [''http://h/a.pdf''] []) ''http://h/a.pdf'' = Some ''scan''"
  by code_simp

text \<open>
  C9, as stated, fails.  The similars string is joined from a Python \<open>set\<close>, and
  two interpreter processes may iterate the same set in different orders: the
  same identifier and text give \<open>ab|ac\<close> under one order and \<open>ac|ab\<close> under
  another.
\<close>

theorem similars_order_counterexample:
  "set_order remdups \<and> set_order (rev \<circ> remdups)
   \<and> SIMILARS (match_values remdups ''a'' ''ab ac'' row0) = Some ''ab|ac''
   \<and> SIMILARS (match_values (rev \<circ> remdups) ''a'' ''ab ac'' row0) = Some ''ac|ab''
   \<and> match_values remdups ''a'' ''ab ac'' row0 \<noteq> match_values (rev \<circ> remdups) ''a'' ''ab ac'' row0"
proof -
  have a: "SIMILARS (match_values remdups ''a'' ''ab ac'' row0) = Some ''ab|ac''"
    by code_simp
  have b: "SIMILARS (match_values (rev \<circ> remdups) ''a'' ''ab ac'' row0) = Some ''ac|ab''"
    by code_simp
  have "match_values remdups ''a'' ''ab ac'' row0 \<noteq> match_values (rev \<circ> remdups) ''a'' ''ab ac'' row0"
  proof
    assume "match_values remdups ''a'' ''ab ac'' row0 = match_values (rev \<circ> remdups) ''a'' ''ab ac'' row0"
    then have "SIMILARS (match_values remdups ''a'' ''ab ac'' row0) =
        SIMILARS (match_values (rev \<circ> remdups) ''a'' ''ab ac'' row0)"
      by simp
    with a b show False by simp
  qed
  with a b show ?thesis
    using set_order_remdups set_order_rev_remdups by blast
qed

text \<open>
  C9, amended.  Two invocations with the same identifier and text, each under its
  own set iteration order, give the same status, the same equivalent and rows
  that differ at most in the similars cell; the two similars cells list the same
  members, and they are the same string when at most one distinct token was found.
\<close>

theorem matcher_deterministic_up_to_set_order:
  assumes "set_order ord1" and "set_order ord2"
  shows "STATUS (match_values ord1 part values r) = STATUS (match_values ord2 part values r)
     \<and> EQUIVALENT (match_values ord1 part values r) = EQUIVALENT (match_values ord2 part values r)
     \<and> (match_values ord1 part values r)\<lparr>SIMILARS := None\<rparr> =
         (match_values ord2 part values r)\<lparr>SIMILARS := None\<rparr>
     \<and> similars_agree (SIMILARS (match_values ord1 part values r))
          (SIMILARS (match_values ord2 part values r))
     \<and> (card (set (map py_strip (re_findall part values))) \<le> 1 \<longrightarrow>
          match_values ord1 part values r = match_values ord2 part values r)"
proof -
  let ?semi = "map py_strip (re_findall part values)"
  from assms have d: "distinct (ord1 ?semi)" "distinct (ord2 ?semi)"
    "set (ord1 ?semi) = set (ord2 ?semi)" "set (ord1 ?semi) = set ?semi"
    by (simp_all add: set_order_def)
  have a: "similars_agree (SIMILARS (match_values ord1 part values r))
            (SIMILARS (match_values ord2 part values r))"
  proof (cases "re_search part values \<noteq> None \<and> ?semi \<noteq> []")
    case True
    then have "SIMILARS (match_values ord1 part values r) = Some (join ''|'' (ord1 ?semi))"
      "SIMILARS (match_values ord2 part values r) = Some (join ''|'' (ord2 ?semi))"
      by (auto simp: match_values_def Let_def)
    with d(1-3) show ?thesis
      unfolding similars_agree_def by blast
  next
    case False
    then have "SIMILARS (match_values ord1 part values r) = SIMILARS (match_values ord2 part values r)"
      by (auto simp: match_values_def Let_def split: option.splits list.splits)
    then show ?thesis
      by (simp add: similars_agree_def)
  qed
  have b: "card (set ?semi) \<le> 1 \<longrightarrow> match_values ord1 part values r = match_values ord2 part values r"
  proof
    assume "card (set ?semi) \<le> 1"
    with d have "ord1 ?semi = ord2 ?semi"
      by (intro distinct_same_set_small) simp_all
    then show "match_values ord1 part values r = match_values ord2 part values r"
      by (simp add: match_values_def Let_def split: option.splits)
  qed
  have c: "(match_values ord1 part values r)\<lparr>SIMILARS := None\<rparr> =
         (match_values ord2 part values r)\<lparr>SIMILARS := None\<rparr>"
    by (simp add: match_values_def Let_def split: option.splits list.splits)
  from c have "STATUS ((match_values ord1 part values r)\<lparr>SIMILARS := None\<rparr>) =
      STATUS ((match_values ord2 part values r)\<lparr>SIMILARS := None\<rparr>)"
    "EQUIVALENT ((match_values ord1 part values r)\<lparr>SIMILARS := None\<rparr>) =
      EQUIVALENT ((match_values ord2 part values r)\<lparr>SIMILARS := None\<rparr>)"
    by simp_all
  then have "STATUS (match_values ord1 part values r) = STATUS (match_values ord2 part values r)"
    "EQUIVALENT (match_values ord1 part values r) = EQUIVALENT (match_values ord2 part values r)"
    by simp_all
  with a b c show ?thesis by blast
qed

theorem matcher_deterministic_up_to_set_order_witness:
  "set_order remdups \<and> set_order (rev \<circ> remdups)
   \<and> STATUS (match_values remdups ''a'' ''ab ac'' row0) =
       STATUS (match_values (rev \<circ> remdups) ''a'' ''ab ac'' row0)
   \<and> EQUIVALENT (match_values remdups ''a'' ''ab ac'' row0) =
       EQUIVALENT (match_values (rev \<circ> remdups) ''a'' ''ab ac'' row0)
   \<and> similars_agree (SIMILARS (match_values remdups ''a'' ''ab ac'' row0))
       (SIMILARS (match_values (rev \<circ> remdups) ''a'' ''ab ac'' row0))"
proof -
  from matcher_deterministic_up_to_set_order [OF set_order_remdups set_order_rev_remdups,
      of "''a''" "''ab ac''" row0] set_order_remdups set_order_rev_remdups
  show ?thesis by blast
qed

text \<open>
  C2, as stated, fails in its tie-break.  The tokens \<open>abcx\<close> and \<open>abcy\<close> both have
  the ratio 3/4 to \<open>abcd\<close>; the first of them in scan order is \<open>abcx\<close>, and the
  equivalent is \<open>abcy\<close>.
\<close>

theorem first_occurrence_counterexample:
  "re_search ''abcd'' ''abcx abcy'' = None
   \<and> first_highest (65 / 100) ''abcd'' (re_split ''abcx abcy'') = Some ''abcx''
   \<and> EQUIVALENT (match_values remdups ''abcd'' ''abcx abcy'' row_tie) = Some ''abcy''"
  by code_simp

text \<open>
  C2, amended.  When the resolved text has no occurrence of the identifier and
  some token of the text, cut at every space and line feed, has a ratio of at
  least 0.65, the row gets the status \<open>Includes or Missed Suffixes\<close>, its
  similars stay as they were, and its equivalent is a token of the highest
  ratio; among the tokens of the highest ratio it is the greatest in the order
  of strings (code point by code point, a proper prefix being smaller).
\<close>

theorem partial_match_greatest_token:
  assumes "pdf_data (PDF r) = Some values"
    and "resolve_text e (PDF r) values tr = (tr', Inr t)"
    and "\<forall>i. \<not> occurs_at (MPN r) t i"
    and "x \<in> set (re_split t)" and "65 / 100 \<le> ratio x (MPN r)"
  shows "\<exists>r' best. SET_DESC e ord pdf_data r tr = (tr', Inr r')
     \<and> STATUS r' = Some ''Includes or Missed Suffixes''
     \<and> EQUIVALENT r' = Some best \<and> SIMILARS r' = SIMILARS r
     \<and> best \<in> set (re_split t) \<and> 65 / 100 \<le> ratio best (MPN r)
     \<and> (\<forall>y\<in>set (re_split t). ratio y (MPN r) < ratio best (MPN r)
            \<or> (ratio y (MPN r) = ratio best (MPN r) \<and> y \<le> best))"
proof -
  from assms(3) have n: "re_search (MPN r) t = None"
    by (simp add: re_search_None)
  from get_close_matches_best [OF assms(4) assms(5)] obtain best where
    b: "get_close_matches (MPN r) (re_split t) (65 / 100) = [best]" "best \<in> set (re_split t)"
    "65 / 100 \<le> ratio best (MPN r)"
    "\<forall>y\<in>set (re_split t). ratio y (MPN r) < ratio best (MPN r)
        \<or> (ratio y (MPN r) = ratio best (MPN r) \<and> y \<le> best)"
    by blast
  have "SET_DESC e ord pdf_data r tr = (tr', Inr (match_values ord (MPN r) t r))"
    using assms(1) assms(2) by (rule SET_DESC_resolved)
  moreover from n b(1) have "match_values ord (MPN r) t r =
      r\<lparr>STATUS := Some ''Includes or Missed Suffixes'', EQUIVALENT := Some best\<rparr>"
    by (simp add: match_values_def)
  ultimately show ?thesis
    using b(2-4) by auto
qed

theorem partial_match_greatest_token_witness:
  "map_scan (PDF row_tie) = Some ''scan''
   \<and> resolve_text env_tie (PDF row_tie) ''scan'' [] =
        ([HttpGet ''http://h/a.pdf'' None, OcrRun ''%PDF''], Inr ''abcx abcy'')
   \<and> (\<forall>i. \<not> occurs_at (MPN row_tie) ''abcx abcy'' i)
   \<and> ''abcx'' \<in> set (re_split ''abcx abcy'') \<and> 65 / 100 \<le> ratio ''abcx'' (MPN row_tie)
   \<and> (\<exists>r' best. SET_DESC env_tie remdups map_scan row_tie [] =
          ([HttpGet ''http://h/a.pdf'' None, OcrRun ''%PDF''], Inr r')
     \<and> STATUS r' = Some ''Includes or Missed Suffixes''
     \<and> EQUIVALENT r' = Some best \<and> SIMILARS r' = SIMILARS row_tie
     \<and> best \<in> set (re_split ''abcx abcy'') \<and> 65 / 100 \<le> ratio best (MPN row_tie)
     \<and> (\<forall>y\<in>set (re_split ''abcx abcy''). ratio y (MPN row_tie) < ratio best (MPN row_tie)
            \<or> (ratio y (MPN row_tie) = ratio best (MPN row_tie) \<and> y \<le> best)))"
proof -
  have h1: "map_scan (PDF row_tie) = Some ''scan''"
    by (simp add: map_scan_def row_tie_def)
  have h2: "resolve_text env_tie (PDF row_tie) ''scan'' [] =
        ([HttpGet ''http://h/a.pdf'' None, OcrRun ''%PDF''], Inr ''abcx abcy'')"
    by code_simp
  have "re_search (MPN row_tie) ''abcx abcy'' = None"
    by code_simp
  then have h3: "\<forall>i. \<not> occurs_at (MPN row_tie) ''abcx abcy'' i"
    by (rule re_search_None [THEN iffD1])
  have h4: "''abcx'' \<in> set (re_split ''abcx abcy'')"
    by code_simp
  have h5: "65 / 100 \<le> ratio ''abcx'' (MPN row_tie)"
    by code_simp
  from partial_match_greatest_token [where pdf_data = map_scan and r = row_tie and ord = remdups,
      OF h1 h2 h3 h4 h5] h1 h2 h3 h4 h5
  show ?thesis by blast
qed

text \<open>
  C7, as stated, fails.  In \<open>xa-ba-by\<close> the identifier \<open>a-b\<close> lies in the two
  whole tokens \<open>xa-ba\<close> and \<open>ba-by\<close>; the scan reports the first and resumes
  behind it, so the similars are \<open>xa-ba\<close> alone.  In \<open>b a a\<close> the scan for the
  identifier \<open> a\<close> reports \<open>b a\<close> and then \<open> a\<close>, which is stripped to \<open>a\<close>, a
  member that does not hold the identifier.
\<close>

theorem overlapping_token_counterexample:
  "set_order remdups
   \<and> STATUS (match_values remdups ''a-b'' ''xa-ba-by'' row0) = Some ''Exact''
   \<and> word_tokens ''a-b'' ''xa-ba-by'' = [''xa-ba'', ''ba-by'']
   \<and> SIMILARS (match_values remdups ''a-b'' ''xa-ba-by'' row0) = Some ''xa-ba''
   \<and> STATUS (match_values remdups '' a'' ''b a a'' row0) = Some ''Exact''
   \<and> SIMILARS (match_values remdups '' a'' ''b a a'' row0) = Some ''b a|a''
   \<and> re_search '' a'' ''a'' = None"
proof -
  have "STATUS (match_values remdups ''a-b'' ''xa-ba-by'' row0) = Some ''Exact''"
    by code_simp
  moreover have "word_tokens ''a-b'' ''xa-ba-by'' = [''xa-ba'', ''ba-by'']"
    by code_simp
  moreover have "SIMILARS (match_values remdups ''a-b'' ''xa-ba-by'' row0) = Some ''xa-ba''"
    by code_simp
  moreover have "STATUS (match_values remdups '' a'' ''b a a'' row0) = Some ''Exact''"
    by code_simp
  moreover have "SIMILARS (match_values remdups '' a'' ''b a a'' row0) = Some ''b a|a''"
    by code_simp
  moreover have "re_search '' a'' ''a'' = None"
    by code_simp
  ultimately show ?thesis
    using set_order_remdups by blast
qed

text \<open>
  C7, amended.  On a row whose similars are unset, a status other than \<open>Exact\<close>
  leaves them unset.  With the status \<open>Exact\<close> the similars are the distinct
  stripped matches of the scan, joined by pipes, or unset when there is no
  match; every match is a whole token around the identifier; and when the
  identifier is not empty and made of word characters, the members are exactly
  the whole tokens around it.
\<close>

theorem similars_are_scanned_tokens:
  assumes "set_order ord" and "SIMILARS r = None"
  shows "(STATUS (match_values ord part t r) \<noteq> Some ''Exact'' \<longrightarrow>
            SIMILARS (match_values ord part t r) = None)
     \<and> (STATUS (match_values ord part t r) = Some ''Exact'' \<longrightarrow>
          (\<exists>xs. distinct xs \<and> set xs = py_strip ` set (re_findall part t)
              \<and> SIMILARS (match_values ord part t r) =
                  (if xs = [] then None else Some (join ''|'' xs)))
          \<and> set (re_findall part t) \<subseteq> set (word_tokens part t)
          \<and> (part \<noteq> [] \<and> list_all is_word part \<longrightarrow>
               py_strip ` set (re_findall part t) = set (word_tokens part t)))"
proof -
  let ?mv = "match_values ord part t r"
  let ?semi = "map py_strip (re_findall part t)"
  have sub: "set (re_findall part t) \<subseteq> set (word_tokens part t)"
    using re_findall_sound by blast
  have wo: "part \<noteq> [] \<and> list_all is_word part \<longrightarrow>
      py_strip ` set (re_findall part t) = set (word_tokens part t)"
    using similars_word_only [of part t] by (simp add: word_only_def)
  from assms(1) have d: "distinct (ord ?semi)" "set (ord ?semi) = set ?semi"
    by (simp_all add: set_order_def)
  show ?thesis
  proof (cases "re_search part t")
    case None
    then have "STATUS ?mv \<noteq> Some ''Exact''" "SIMILARS ?mv = None"
      using assms(2) by (simp_all add: match_values_def split: list.splits)
    then show ?thesis by simp
  next
    case (Some exact)
    then have st: "STATUS ?mv = Some ''Exact''"
      by (rule match_values_exact)
    have sim: "SIMILARS ?mv = (if ord ?semi = [] then None else Some (join ''|'' (ord ?semi)))"
    proof (cases "?semi = []")
      case True
      with d(2) have "ord ?semi = []" by simp
      with True Some assms(2) show ?thesis
        by (simp add: match_values_def Let_def)
    next
      case False
      with d(2) have "ord ?semi \<noteq> []" by (metis set_empty)
      with False Some show ?thesis
        by (simp add: match_values_def Let_def)
    qed
    from d sim have "\<exists>xs. distinct xs \<and> set xs = py_strip ` set (re_findall part t)
        \<and> SIMILARS ?mv = (if xs = [] then None else Some (join ''|'' xs))"
      by (intro exI [of _ "ord ?semi"]) simp
    with st sub wo show ?thesis by blast
  qed
qed

theorem similars_are_scanned_tokens_witness:
  "set_order remdups \<and> SIMILARS row0 = None
   \<and> STATUS (match_values remdups ''abc'' ''xabc, ABCy z'' row0) = Some ''Exact''
   \<and> ''abc'' \<noteq> [] \<and> list_all is_word ''abc''
   \<and> (\<exists>xs. distinct xs \<and> set xs = py_strip ` set (re_findall ''abc'' ''xabc, ABCy z'')
          \<and> SIMILARS (match_values remdups ''abc'' ''xabc, ABCy z'' row0) =
              (if xs = [] then None else Some (join ''|'' xs)))
   \<and> set (re_findall ''abc'' ''xabc, ABCy z'') \<subseteq> set (word_tokens ''abc'' ''xabc, ABCy z'')
   \<and> py_strip ` set (re_findall ''abc'' ''xabc, ABCy z'') = set (word_tokens ''abc'' ''xabc, ABCy z'')"
proof -
  have h2: "SIMILARS row0 = None"
    by (simp add: row0_def)
  have h3: "STATUS (match_values remdups ''abc'' ''xabc, ABCy z'' row0) = Some ''Exact''"
    by code_simp
  have h4: "''abc'' \<noteq> [] \<and> list_all is_word ''abc''"
    by code_simp
  from similars_are_scanned_tokens [OF set_order_remdups h2, of "''abc''" "''xabc, ABCy z''"]
    set_order_remdups h2 h3 h4
  show ?thesis by blast
qed

end
